theory Spec2Isabelle
  imports Complex_Main
begin

section \<open>Double-precision values\<close>

text \<open>
  The scalars of \<^verbatim>\<open>logistic_function.hpp\<close> are C++ \<^verbatim>\<open>double\<close>s. A value is a finite
  number, one of the two infinities, or NaN. Zero carries no sign here: the only divisor of
  the header that can vanish is \<^verbatim>\<open>1 - y\<close> at \<^verbatim>\<open>y = 1\<close>, which IEEE-754 arithmetic
  evaluates to \<^verbatim>\<open>+0\<close>, so a zero divisor is read as \<^verbatim>\<open>+0\<close>.
\<close>

datatype double = Fin real | PInf | NInf | NaN

text \<open>
  What an arithmetic operation does with the real number it computes is a parameter of the
  operations. \<open>exact\<close> keeps the number as it is: the arithmetic of the mathematical
  contract, with no rounding and no overflow.
\<close>

type_synonym rounding = "real \<Rightarrow> double"

definition exact :: rounding where
  "exact r = Fin r"

definition dbl_max :: real where
  \<comment> \<open>\<^verbatim>\<open>std::numeric_limits<double>::max()\<close>, the largest finite double\<close>
  "dbl_max = 2 ^ 1024 - 2 ^ 971"

definition dbl_min :: real where
  \<comment> \<open>\<^verbatim>\<open>std::numeric_limits<double>::min()\<close>, the smallest positive normal double\<close>
  "dbl_min = 1 / 2 ^ 1022"

text \<open>
  \<open>binary64\<close> is the arithmetic of the machine: the number is rounded to the nearest
  double, ties to the neighbour with an even significand, and a result beyond the largest
  double becomes an infinity. Doubles of magnitude at least \<open>2\<^sup>-\<^sup>1\<^sup>0\<^sup>2\<^sup>2\<close> have 53
  significant bits; below that they are the multiples of \<open>2\<^sup>-\<^sup>1\<^sup>0\<^sup>7\<^sup>4\<close>.

  A property stated for real numbers is read in exact arithmetic. A property of finite
  doubles, of infinities and NaN, or one stated within a tolerance, is read in \<open>binary64\<close>
  arithmetic, where the library functions \<^verbatim>\<open>std::exp\<close> and \<^verbatim>\<open>std::log\<close> are taken to
  return the double nearest to the exact result; exact arithmetic then shows what the
  tolerance leaves room for.
\<close>

definition rne :: "real \<Rightarrow> int" where
  \<comment> \<open>the nearest integer, ties to even\<close>
  "rne r =
     (let n = \<lfloor>r\<rfloor>; d = r - of_int n
      in if d < 1 / 2 then n else if 1 / 2 < d then n + 1 else if even n then n else n + 1)"

definition binade :: "real \<Rightarrow> int" where
  \<comment> \<open>the exponent of the doubles around \<open>r\<close>\<close>
  "binade r = max \<lfloor>log 2 \<bar>r\<bar>\<rfloor> (- 1022)"

definition quantum :: "real \<Rightarrow> real" where
  \<comment> \<open>the distance between neighbouring doubles around \<open>r\<close>\<close>
  "quantum r = 2 powi (binade r - 52)"

definition nearest :: "real \<Rightarrow> real" where
  "nearest r = of_int (rne (r / quantum r)) * quantum r"

definition binary64 :: rounding where
  "binary64 r =
     (if r = 0 then Fin 0
      else if dbl_max < nearest r then PInf
      else if nearest r < - dbl_max then NInf
      else Fin (nearest r))"

fun dneg :: "double \<Rightarrow> double" where
  "dneg (Fin a) = Fin (- a)"
| "dneg PInf = NInf"
| "dneg NInf = PInf"
| "dneg NaN = NaN"

fun dadd :: "rounding \<Rightarrow> double \<Rightarrow> double \<Rightarrow> double" where
  "dadd rnd (Fin a) (Fin b) = rnd (a + b)"
| "dadd rnd NaN y = NaN"
| "dadd rnd x NaN = NaN"
| "dadd rnd PInf NInf = NaN"
| "dadd rnd NInf PInf = NaN"
| "dadd rnd PInf y = PInf"
| "dadd rnd NInf y = NInf"
| "dadd rnd (Fin a) y = y"

definition dsub :: "rounding \<Rightarrow> double \<Rightarrow> double \<Rightarrow> double" where
  "dsub rnd x y = dadd rnd x (dneg y)"

fun dmul :: "rounding \<Rightarrow> double \<Rightarrow> double \<Rightarrow> double" where
  "dmul rnd (Fin a) (Fin b) = rnd (a * b)"
| "dmul rnd NaN y = NaN"
| "dmul rnd x NaN = NaN"
| "dmul rnd (Fin a) y = (if a = 0 then NaN else if 0 < a then y else dneg y)"
| "dmul rnd x (Fin b) = (if b = 0 then NaN else if 0 < b then x else dneg x)"
| "dmul rnd PInf y = y"
| "dmul rnd NInf y = dneg y"

fun ddiv :: "rounding \<Rightarrow> double \<Rightarrow> double \<Rightarrow> double" where
  "ddiv rnd (Fin a) (Fin b) =
     (if b = 0 then (if a = 0 then NaN else if 0 < a then PInf else NInf) else rnd (a / b))"
| "ddiv rnd NaN y = NaN"
| "ddiv rnd x NaN = NaN"
| "ddiv rnd (Fin a) y = Fin 0"
| "ddiv rnd x (Fin b) = (if 0 \<le> b then x else dneg x)"
| "ddiv rnd x y = NaN"

fun dle :: "double \<Rightarrow> double \<Rightarrow> bool" where
  "dle (Fin a) (Fin b) = (a \<le> b)"
| "dle NaN y = False"
| "dle x NaN = False"
| "dle NInf y = True"
| "dle x PInf = True"
| "dle x y = False"

fun dlt :: "double \<Rightarrow> double \<Rightarrow> bool" where
  "dlt (Fin a) (Fin b) = (a < b)"
| "dlt NaN y = False"
| "dlt x NaN = False"
| "dlt PInf y = False"
| "dlt x NInf = False"
| "dlt x y = True"

fun dexp :: "rounding \<Rightarrow> double \<Rightarrow> double" where
  \<comment> \<open>\<^verbatim>\<open>std::exp\<close>, taken to round its result as the arithmetic does\<close>
  "dexp rnd (Fin a) = rnd (exp a)"
| "dexp rnd PInf = PInf"
| "dexp rnd NInf = Fin 0"
| "dexp rnd NaN = NaN"

fun dlog :: "rounding \<Rightarrow> double \<Rightarrow> double" where
  \<comment> \<open>\<^verbatim>\<open>std::log\<close>, rounding likewise: a pole at zero, a domain error below it\<close>
  "dlog rnd (Fin a) = (if a = 0 then NInf else if a < 0 then NaN else rnd (ln a))"
| "dlog rnd PInf = PInf"
| "dlog rnd NInf = NaN"
| "dlog rnd NaN = NaN"


section \<open>The truncated exponential and logarithm\<close>

definition log_max :: real where
  \<comment> \<open>the logarithm of the largest finite double\<close>
  "log_max = ln dbl_max"

definition log_min :: real where
  \<comment> \<open>the logarithm of the smallest positive normal double\<close>
  "log_min = ln dbl_min"

text \<open>
  Modelled from the spec: \<^verbatim>\<open>arma::trunc_exp\<close> belongs to the Armadillo library and is not
  among the sources. The spec asks for a truncated exponential that clamps extreme arguments
  so that the exponential of a large argument does not overflow, and leaves the threshold
  open; the threshold taken here is the largest one that achieves this, the logarithm of the
  largest finite double, and an argument at or above it yields that largest double.
\<close>

definition trunc_exp :: "rounding \<Rightarrow> double \<Rightarrow> double" where
  "trunc_exp rnd x = (if dle (Fin log_max) x then Fin dbl_max else dexp rnd x)"

text \<open>
  Modelled from the spec: \<^verbatim>\<open>arma::trunc_log\<close> belongs to the Armadillo library and is not
  among the sources. The spec asks for a guarded logarithm, a helper that saturates extreme
  arguments before it invokes the standard logarithm, so that the boundary of the domain
  yields no NaN; Armadillo documents it as the natural logarithm truncated to avoid
  infinities. Here an infinite argument saturates to \<open>log_max\<close> and an argument at or below
  zero to \<open>log_min\<close>; NaN is neither and passes through the standard logarithm.
\<close>

definition trunc_log :: "rounding \<Rightarrow> double \<Rightarrow> double" where
  "trunc_log rnd x =
     (if x = PInf then Fin log_max
      else if dle x (Fin 0) then Fin log_min
      else dlog rnd x)"


section \<open>The logistic function on scalars\<close>

definition fn :: "rounding \<Rightarrow> double \<Rightarrow> double" where
  \<comment> \<open>\<^verbatim>\<open>return 1.0 / (1.0 + arma::trunc_exp(-x));\<close>\<close>
  "fn rnd x = ddiv rnd (Fin 1) (dadd rnd (Fin 1) (trunc_exp rnd (dneg x)))"

definition deriv :: "rounding \<Rightarrow> double \<Rightarrow> double" where
  \<comment> \<open>\<^verbatim>\<open>return y * (1.0 - y);\<close>\<close>
  "deriv rnd y = dmul rnd y (dsub rnd (Fin 1) y)"

definition inv_fn :: "rounding \<Rightarrow> double \<Rightarrow> double" where
  \<comment> \<open>\<^verbatim>\<open>return arma::trunc_log(y / (1 - y));\<close>\<close>
  "inv_fn rnd y = trunc_log rnd (ddiv rnd y (dsub rnd (Fin 1) y))"


section \<open>The logistic function on containers\<close>

text \<open>
  Modelled from the spec: the container overloads are templates over Armadillo's vector and
  matrix types, which are not among the sources. A container is an ordered collection of
  scalars of a fixed shape that supports element-wise arithmetic with scalar constants
  broadcast to every element; here it is a matrix that holds its row and column counts and
  its elements in one sequence, a vector being a matrix of one column. The element-wise
  product \<^verbatim>\<open>%\<close> and quotient \<^verbatim>\<open>/\<close> of two containers refuse operands of different
  shapes.
\<close>

record mat =
  n_rows :: nat
  n_cols :: nat
  mem :: "double list"

datatype error = Incompatible_Dimensions

definition each :: "(double \<Rightarrow> double) \<Rightarrow> mat \<Rightarrow> mat" where
  \<comment> \<open>a unary operation applied to every element\<close>
  "each f X = X\<lparr>mem := map f (mem X)\<rparr>"

definition pairwise :: "(double \<Rightarrow> double \<Rightarrow> double) \<Rightarrow> mat \<Rightarrow> mat \<Rightarrow> error + mat" where
  \<comment> \<open>a binary operation applied to the elements at equal positions\<close>
  "pairwise f X Y =
     (if n_rows X = n_rows Y \<and> n_cols X = n_cols Y
      then Inr (X\<lparr>mem := map2 f (mem X) (mem Y)\<rparr>)
      else Inl Incompatible_Dimensions)"

definition mat_neg :: "mat \<Rightarrow> mat" where
  \<comment> \<open>\<^verbatim>\<open>-X\<close>\<close>
  "mat_neg X = each dneg X"

definition scalar_plus :: "rounding \<Rightarrow> double \<Rightarrow> mat \<Rightarrow> mat" where
  \<comment> \<open>\<^verbatim>\<open>k + X\<close>\<close>
  "scalar_plus rnd k X = each (dadd rnd k) X"

definition scalar_minus :: "rounding \<Rightarrow> double \<Rightarrow> mat \<Rightarrow> mat" where
  \<comment> \<open>\<^verbatim>\<open>k - X\<close>\<close>
  "scalar_minus rnd k X = each (dsub rnd k) X"

definition scalar_div :: "rounding \<Rightarrow> double \<Rightarrow> mat \<Rightarrow> mat" where
  \<comment> \<open>\<^verbatim>\<open>k / X\<close>\<close>
  "scalar_div rnd k X = each (ddiv rnd k) X"

definition schur :: "rounding \<Rightarrow> mat \<Rightarrow> mat \<Rightarrow> error + mat" where
  \<comment> \<open>\<^verbatim>\<open>X % Y\<close>\<close>
  "schur rnd X Y = pairwise (dmul rnd) X Y"

definition mat_div :: "rounding \<Rightarrow> mat \<Rightarrow> mat \<Rightarrow> error + mat" where
  \<comment> \<open>\<^verbatim>\<open>X / Y\<close>\<close>
  "mat_div rnd X Y = pairwise (ddiv rnd) X Y"

definition mat_trunc_exp :: "rounding \<Rightarrow> mat \<Rightarrow> mat" where
  \<comment> \<open>\<^verbatim>\<open>arma::trunc_exp(X)\<close>\<close>
  "mat_trunc_exp rnd X = each (trunc_exp rnd) X"

definition mat_trunc_log :: "rounding \<Rightarrow> mat \<Rightarrow> mat" where
  \<comment> \<open>\<^verbatim>\<open>arma::trunc_log(X)\<close>\<close>
  "mat_trunc_log rnd X = each (trunc_log rnd) X"

text \<open>
  Each container overload assigns to its output argument, which takes the shape and the
  elements of the assigned expression whatever it held before: the model returns the new
  value of the output argument.
\<close>

definition fn_mat :: "rounding \<Rightarrow> mat \<Rightarrow> mat" where
  \<comment> \<open>\<^verbatim>\<open>y = 1.0 / (1.0 + arma::trunc_exp(-x));\<close>\<close>
  "fn_mat rnd x = scalar_div rnd (Fin 1) (scalar_plus rnd (Fin 1) (mat_trunc_exp rnd (mat_neg x)))"

definition deriv_mat :: "rounding \<Rightarrow> mat \<Rightarrow> error + mat" where
  \<comment> \<open>\<^verbatim>\<open>x = y % (1.0 - y);\<close>\<close>
  "deriv_mat rnd y = schur rnd y (scalar_minus rnd (Fin 1) y)"

definition inv_mat :: "rounding \<Rightarrow> mat \<Rightarrow> error + mat" where
  \<comment> \<open>\<^verbatim>\<open>x = arma::trunc_log(y / (1 - y));\<close>\<close>
  "inv_mat rnd y =
     (case mat_div rnd y (scalar_minus rnd (Fin 1) y) of
        Inl e \<Rightarrow> Inl e
      | Inr q \<Rightarrow> Inr (mat_trunc_log rnd q))"


section \<open>Facts about the constants\<close>

lemma dbl_max_eq: "dbl_max = 2 ^ 971 * (2 ^ 53 - 1)"
  unfolding dbl_max_def by (simp add: algebra_simps flip: power_add)

lemma dbl_max_pos: "0 < dbl_max"
  unfolding dbl_max_eq by simp

lemma dbl_max_ge: "2 ^ 1023 \<le> dbl_max"
proof -
  have "(2::real) ^ 1023 = 2 ^ 971 * 2 ^ 52" by (simp flip: power_add)
  also have "\<dots> \<le> 2 ^ 971 * (2 ^ 53 - 1)" by (intro mult_left_mono) simp_all
  finally show ?thesis by (simp add: dbl_max_eq)
qed

lemma dbl_max_lt: "dbl_max < 2 ^ 1024"
  unfolding dbl_max_def by simp

lemma exp_log_max: "exp log_max = dbl_max"
  unfolding log_max_def using dbl_max_pos by simp

lemma log_max_pos: "0 < log_max"
proof -
  have "1 < dbl_max" using dbl_max_ge by (rule order_less_le_trans [rotated]) simp
  then show ?thesis unfolding log_max_def by simp
qed

lemma log_max_less: "log_max < 1024"
proof -
  have "log_max < ln (2 ^ 1024)"
    unfolding log_max_def using dbl_max_pos dbl_max_lt by (subst ln_less_cancel_iff) simp_all
  also have "\<dots> = 1024 * ln 2" by (subst ln_realpow) simp_all
  also have "\<dots> < 1024 * 1" using ln_2_less_1 by (intro mult_strict_left_mono) simp_all
  finally show ?thesis by simp
qed


section \<open>Bounds on the exponential\<close>

lemma exp_minus_one_bounds:
  "367879441171442 / 10 ^ 15 < exp (- 1 :: real)"
  "exp (- 1 :: real) < 367879441171443 / 10 ^ 15"
proof -
  obtain t :: real where t: "\<bar>t\<bar> \<le> \<bar>- 1\<bar>"
    and e: "exp (- 1) = (\<Sum>m<20. (- 1) ^ m / fact m) + exp t / fact 20 * (- 1) ^ 20"
    using Maclaurin_exp_le [of "- 1" 20] by blast
  define r where "r = exp t / fact 20"
  have S: "(\<Sum>m<20. (- 1 :: real) ^ m / fact m) = 92079694567171 / 250298560512000"
    by (simp add: eval_nat_numeral sum.lessThan_Suc)
  have F: "fact 20 = (2432902008176640000 :: real)" by (simp add: eval_nat_numeral)
  have "exp t \<le> exp 1" using t by simp
  then have "exp t \<le> 3" using exp_le by linarith
  then have "r \<le> 3 / 2432902008176640000" unfolding r_def F by (rule divide_right_mono) simp
  moreover have "0 < r" unfolding r_def by simp
  moreover have "exp (- 1 :: real) = 92079694567171 / 250298560512000 + r"
    using e S by (simp add: r_def)
  ultimately show "367879441171442 / 10 ^ 15 < exp (- 1 :: real)"
    and "exp (- 1 :: real) < 367879441171443 / 10 ^ 15"
    by simp_all
qed

lemma exp_one_bounds:
  "exp (1::real) \<le> 27183 / 10000" "27182 / 10000 \<le> exp (1::real)"
proof -
  have pos: "0 < exp (- 1 :: real)" by simp
  have e: "exp (1::real) = 1 / exp (- 1)" by (simp add: exp_minus field_simps)
  define m where "m = exp (- 1 :: real)"
  have b: "367879441171442 / 10 ^ 15 < m" "m < 367879441171443 / 10 ^ 15"
    using exp_minus_one_bounds by (simp_all add: m_def)
  have "1 / m \<le> 27183 / 10000" using b by (simp add: field_simps)
  moreover have "27182 / 10000 \<le> 1 / m" using b by (simp add: field_simps)
  ultimately show "exp (1::real) \<le> 27183 / 10000" "27182 / 10000 \<le> exp (1::real)"
    unfolding e m_def by simp_all
qed

lemma exp_fifteen: "exp (15::real) \<le> 3300000"
proof -
  have "exp (15::real) = exp 1 ^ 15" by (simp flip: exp_of_nat_mult)
  also have "\<dots> \<le> (27183 / 10000) ^ 15" using exp_one_bounds by (intro power_mono) simp_all
  also have "\<dots> \<le> 3300000" by (simp add: power_divide)
  finally show ?thesis .
qed

lemma exp_thirty_one: "exp (31::real) \<le> 2 ^ 46"
proof -
  have "exp (31::real) = exp 1 ^ 31" by (simp flip: exp_of_nat_mult)
  also have "\<dots> \<le> (27183 / 10000) ^ 31" using exp_one_bounds by (intro power_mono) simp_all
  also have "\<dots> \<le> 2 ^ 46" by (simp add: power_divide)
  finally show ?thesis .
qed

lemma exp_thirty_six:
  "exp (36::real) \<le> 4320 * 10 ^ 12" "4300 * 10 ^ 12 \<le> exp (36::real)"
proof -
  have e: "exp (36::real) = exp 1 ^ 36" by (simp flip: exp_of_nat_mult)
  have "exp (1::real) ^ 36 \<le> (27183 / 10000) ^ 36"
    using exp_one_bounds by (intro power_mono) simp_all
  also have "\<dots> \<le> 4320 * 10 ^ 12" by (simp add: power_divide)
  finally show "exp (36::real) \<le> 4320 * 10 ^ 12" by (simp only: e)
  have "4300 * 10 ^ 12 \<le> (27182 / 10000 :: real) ^ 36" by (simp add: power_divide)
  also have "\<dots> \<le> exp 1 ^ 36" using exp_one_bounds by (intro power_mono) simp_all
  finally show "4300 * 10 ^ 12 \<le> exp (36::real)" by (simp only: e)
qed

lemma exp_minus_thirty_seven: "exp (- 37 :: real) < 1 / 2 ^ 53"
proof -
  have "(2::real) ^ 53 < (27182 / 10000) ^ 37" by (simp add: power_divide)
  also have "\<dots> \<le> exp 1 ^ 37" using exp_one_bounds by (intro power_mono) simp_all
  also have "\<dots> = exp (37::real)" by (simp flip: exp_of_nat_mult)
  finally have "1 / exp (37::real) < 1 / 2 ^ 53" by (intro divide_strict_left_mono) simp_all
  then show ?thesis by (simp add: exp_minus field_simps)
qed

lemma exp_minus_seventeen:
  "1864462196 / 10 / 2 ^ 52 \<le> exp (- 17 :: real)" "exp (- 17 :: real) \<le> 1864462197 / 10 / 2 ^ 52"
  "exp (- 17 :: real) \<le> (1 - 2 / 10 ^ 9) / (6484045738209110 / 2 ^ 28)"
proof -
  define m where "m = exp (- 1 :: real)"
  have b: "367879441171442 / 10 ^ 15 \<le> m" "m \<le> 367879441171443 / 10 ^ 15" and m: "0 \<le> m"
    using exp_minus_one_bounds by (simp_all add: m_def)
  have e: "exp (- 17 :: real) = m ^ 17"
    unfolding m_def using exp_of_nat_mult [of 17 "- 1 :: real"] by simp
  have "(1864462196 / 10 / 2 ^ 52 :: real) \<le> (367879441171442 / 10 ^ 15) ^ 17"
    by (simp add: power_divide)
  also have "\<dots> \<le> m ^ 17" using b by (intro power_mono) simp_all
  finally show "1864462196 / 10 / 2 ^ 52 \<le> exp (- 17 :: real)" by (simp only: e)
  have up: "m ^ 17 \<le> (367879441171443 / 10 ^ 15) ^ 17" using b m by (intro power_mono)
  also have "\<dots> \<le> 1864462197 / 10 / 2 ^ 52" by (simp add: power_divide)
  finally show "exp (- 17 :: real) \<le> 1864462197 / 10 / 2 ^ 52" by (simp only: e)
  have "(367879441171443 / 10 ^ 15 :: real) ^ 17 \<le> (1 - 2 / 10 ^ 9) / (6484045738209110 / 2 ^ 28)"
    by (simp add: power_divide)
  then show "exp (- 17 :: real) \<le> (1 - 2 / 10 ^ 9) / (6484045738209110 / 2 ^ 28)"
    using up by (simp only: e)
qed


section \<open>The scalar operations in exact arithmetic\<close>

lemma trunc_exp_exact:
  "trunc_exp exact (Fin u) = Fin (if log_max \<le> u then dbl_max else exp u)"
  by (simp add: trunc_exp_def exact_def)

lemma fn_exact:
  "fn exact (Fin x) = Fin (1 / (1 + (if log_max \<le> - x then dbl_max else exp (- x))))"
proof -
  have "1 + dbl_max \<noteq> 0" using dbl_max_pos by simp
  moreover have "1 + exp (- x) \<noteq> 0" using exp_gt_zero [of "- x"] by linarith
  ultimately show ?thesis
    by (simp add: fn_def trunc_exp_exact exact_def)
qed

lemma deriv_exact: "deriv exact (Fin y) = Fin (y * (1 - y))"
  by (simp add: deriv_def dsub_def exact_def)

lemma inv_fn_exact:
  assumes "0 < y" and "y < 1"
  shows "inv_fn exact (Fin y) = Fin (ln (y / (1 - y)))"
proof -
  have "\<not> y / (1 - y) \<le> 0" using assms by (simp add: not_le)
  then show ?thesis using assms by (simp add: inv_fn_def dsub_def exact_def trunc_log_def)
qed

lemma fn_exact_min: "fn exact (Fin x) = Fin (1 / (1 + exp (min log_max (- x))))"
  by (simp add: fn_exact min_def exp_log_max)

lemma logistic_sum: "1 / (1 + exp (- x)) + 1 / (1 + exp x) = (1::real)"
proof -
  have "0 < 1 + exp x" by (simp add: add_pos_pos)
  then have "1 + exp x \<noteq> 0" by simp
  then show ?thesis by (simp add: exp_minus field_simps flip: add_divide_distrib)
qed

lemma odds_of_logistic:
  fixes e :: real
  assumes "0 < e"
  shows "(1 / (1 + e)) / (1 - 1 / (1 + e)) = 1 / e"
proof -
  have "1 + e \<noteq> 0" using assms by simp
  then have "1 - 1 / (1 + e) = e / (1 + e)" by (simp add: field_simps)
  then show ?thesis using assms by simp
qed

lemma truncated_small:
  assumes "log_max \<le> u"
  shows "0 < 1 / (1 + exp u)" and "1 / (1 + exp u) \<le> 1 / (1 + dbl_max)"
proof -
  have "dbl_max \<le> exp u"
    using assms exp_le_cancel_iff [of log_max u] by (simp add: exp_log_max)
  then show "1 / (1 + exp u) \<le> 1 / (1 + dbl_max)"
    using dbl_max_pos by (intro divide_left_mono) (simp_all add: add_pos_pos)
  show "0 < 1 / (1 + exp u)" by (simp add: add_pos_pos)
qed

lemma inv_dbl_max_small: "1 / (1 + dbl_max) < 1 / 10 ^ 9"
proof -
  have "(10::real) ^ 9 < 2 ^ 1023" by simp
  also have "\<dots> \<le> dbl_max" by (rule dbl_max_ge)
  finally have "(10::real) ^ 9 < 1 + dbl_max" by simp
  then show ?thesis by (intro divide_strict_left_mono) (simp_all add: add_pos_pos dbl_max_pos)
qed


section \<open>Rounding to the nearest double\<close>

lemma rne_cases: "rne x = \<lfloor>x\<rfloor> \<or> rne x = \<lfloor>x\<rfloor> + 1"
  by (simp add: rne_def Let_def)

lemma rne_lower: "of_int n \<le> x \<Longrightarrow> n \<le> rne x"
  using rne_cases [of x] le_floor_iff [of n x] by linarith

lemma rne_upper:
  assumes "x < of_int n + 1 / 2"
  shows "rne x \<le> n"
proof (cases "\<lfloor>x\<rfloor> < n")
  case True
  then show ?thesis using rne_cases [of x] by linarith
next
  case False
  have "\<lfloor>x\<rfloor> \<le> n" using assms by (simp add: floor_le_iff)
  with False have eq: "\<lfloor>x\<rfloor> = n" by simp
  then have "x - of_int \<lfloor>x\<rfloor> < 1 / 2" using assms by simp
  then show ?thesis using eq by (simp add: rne_def Let_def)
qed

lemma rne_round_up:
  assumes "of_int n - 1 / 2 < x"
  shows "n \<le> rne x"
proof (cases "n \<le> \<lfloor>x\<rfloor>")
  case True
  then show ?thesis using rne_cases [of x] by linarith
next
  case False
  have "of_int (n - 1) \<le> x" using assms by simp
  then have "n - 1 \<le> \<lfloor>x\<rfloor>" by (simp only: le_floor_iff)
  with False have eq: "\<lfloor>x\<rfloor> = n - 1" by simp
  then have "1 / 2 < x - of_int \<lfloor>x\<rfloor>" using assms by simp
  then show ?thesis using eq by (simp add: rne_def Let_def)
qed

lemma rne_of_int: "rne (of_int n) = n"
  by (simp add: rne_def)

lemma rne_error: "\<bar>real_of_int (rne x) - x\<bar> \<le> 1 / 2"
proof -
  have "of_int \<lfloor>x\<rfloor> \<le> x" "x < of_int \<lfloor>x\<rfloor> + 1" by linarith+
  then show ?thesis by (auto simp: rne_def Let_def)
qed

lemma rne_mono:
  assumes "x \<le> y"
  shows "rne x \<le> rne y"
proof (cases "\<lfloor>x\<rfloor> < \<lfloor>y\<rfloor>")
  case True
  then show ?thesis using rne_cases [of x] rne_cases [of y] by linarith
next
  case False
  then have "\<lfloor>x\<rfloor> = \<lfloor>y\<rfloor>" using floor_mono [OF assms] by simp
  then show ?thesis using assms by (auto simp: rne_def Let_def)
qed

lemma binade_floor:
  assumes "0 < r"
  shows "2 powi \<lfloor>log 2 r\<rfloor> \<le> r" and "r < 2 powi (\<lfloor>log 2 r\<rfloor> + 1)"
proof -
  have "2 powr real_of_int \<lfloor>log 2 r\<rfloor> \<le> r \<and> r < 2 powr real_of_int (\<lfloor>log 2 r\<rfloor> + 1)"
    using floor_log_eq_powr_iff [of r 2 "\<lfloor>log 2 r\<rfloor>"] assms by simp
  then show "2 powi \<lfloor>log 2 r\<rfloor> \<le> r" and "r < 2 powi (\<lfloor>log 2 r\<rfloor> + 1)"
    by (simp_all only: powr_real_of_int' [of 2, simplified])
qed

lemma binade_upper:
  assumes "0 < r"
  shows "r < 2 powi (binade r + 1)"
proof -
  have "r < 2 powi (\<lfloor>log 2 r\<rfloor> + 1)" using binade_floor [OF assms] by simp
  also have "\<dots> \<le> 2 powi (binade r + 1)"
    using assms by (intro power_int_increasing) (simp_all add: binade_def)
  finally show ?thesis .
qed

lemma binade_lower:
  assumes "2 powi (- 1022) \<le> r"
  shows "2 powi binade r \<le> r"
proof -
  have pos: "0 < r" using assms zero_less_power_int [of "2::real" "- 1022"] by linarith
  show ?thesis
  proof (cases "- 1022 \<le> \<lfloor>log 2 r\<rfloor>")
    case True
    then have "binade r = \<lfloor>log 2 r\<rfloor>" using pos by (simp add: binade_def)
    then show ?thesis using binade_floor(1) [OF pos] by simp
  next
    case False
    then have "binade r = - 1022" using pos by (simp add: binade_def)
    then show ?thesis using assms by simp
  qed
qed

lemma binade_ge:
  assumes "0 < r" and "2 powi k \<le> r"
  shows "k \<le> binade r"
proof -
  have "(2::real) powi k < 2 powi (\<lfloor>log 2 r\<rfloor> + 1)"
    using assms binade_floor(2) [of r] by linarith
  then have "k < \<lfloor>log 2 r\<rfloor> + 1"
    using power_int_increasing [of "\<lfloor>log 2 r\<rfloor> + 1" k "2::real"] by (cases "k < \<lfloor>log 2 r\<rfloor> + 1") simp_all
  then show ?thesis using assms by (simp add: binade_def)
qed

lemma binade_le:
  assumes "0 < r" and "r < 2 powi (k + 1)" and "- 1022 \<le> k"
  shows "binade r \<le> k"
proof -
  have "(2::real) powi \<lfloor>log 2 r\<rfloor> < 2 powi (k + 1)"
    using assms binade_floor(1) [of r] by linarith
  then have "\<lfloor>log 2 r\<rfloor> < k + 1"
    using power_int_increasing [of "k + 1" "\<lfloor>log 2 r\<rfloor>" "2::real"] by (cases "\<lfloor>log 2 r\<rfloor> < k + 1") simp_all
  then show ?thesis using assms by (simp add: binade_def)
qed

lemma binade_mono:
  assumes "0 < a" and "a \<le> b"
  shows "binade a \<le> binade b"
proof -
  have "log 2 a \<le> log 2 b" using assms by (intro log_mono) simp_all
  then have "\<lfloor>log 2 a\<rfloor> \<le> \<lfloor>log 2 b\<rfloor>" by (rule floor_mono)
  then show ?thesis using assms by (simp add: binade_def)
qed

lemma quantum_pos: "0 < quantum r"
  by (simp add: quantum_def zero_less_power_int)

lemma quantum_scale:
  shows "quantum r * 2 ^ 53 = 2 powi (binade r + 1)" and "quantum r * 2 ^ 52 = 2 powi binade r"
proof -
  have "binade r + 1 = (binade r - 52) + 53" by simp
  then have "(2::real) powi (binade r + 1) = 2 powi ((binade r - 52) + 53)" by (rule arg_cong)
  also have "\<dots> = 2 powi (binade r - 52) * 2 powi 53" by (rule power_int_add) simp
  finally show "quantum r * 2 ^ 53 = 2 powi (binade r + 1)" by (simp add: quantum_def)
  have "binade r = (binade r - 52) + 52" by simp
  then have "(2::real) powi binade r = 2 powi ((binade r - 52) + 52)" by (rule arg_cong)
  also have "\<dots> = 2 powi (binade r - 52) * 2 powi 52" by (rule power_int_add) simp
  finally show "quantum r * 2 ^ 52 = 2 powi binade r" by (simp add: quantum_def)
qed

lemma quantum_abs: "quantum \<bar>r\<bar> = quantum r"
  by (simp add: quantum_def binade_def)

lemma nearest_zero: "nearest 0 = 0"
  by (simp add: nearest_def rne_def)

lemma nearest_nonneg:
  assumes "0 < r"
  shows "0 \<le> nearest r"
proof -
  have "of_int 0 \<le> r / quantum r" using assms quantum_pos [of r] by simp
  then have "0 \<le> rne (r / quantum r)" by (rule rne_lower)
  then show ?thesis using quantum_pos [of r] by (simp add: nearest_def)
qed

lemma nearest_le_next_binade:
  assumes "0 < r"
  shows "nearest r \<le> 2 powi (binade r + 1)"
proof -
  have "r < quantum r * 2 ^ 53"
    using binade_upper [OF assms] by (simp only: quantum_scale)
  then have "r / quantum r < of_int (2 ^ 53) + 1 / 2"
    using quantum_pos [of r] by (simp add: field_simps)
  then have "rne (r / quantum r) \<le> 2 ^ 53" by (rule rne_upper)
  then have "real_of_int (rne (r / quantum r)) \<le> 2 ^ 53"
    using of_int_le_iff [of "rne (r / quantum r)" "2 ^ 53", where ?'a = real] by simp
  then have "nearest r \<le> 2 ^ 53 * quantum r"
    unfolding nearest_def using quantum_pos [of r] by (intro mult_right_mono) simp_all
  then show ?thesis using quantum_scale(1) [of r] by (simp add: mult.commute)
qed

lemma nearest_ge_binade:
  assumes "2 powi (- 1022) \<le> r"
  shows "2 powi binade r \<le> nearest r"
proof -
  have "quantum r * 2 ^ 52 \<le> r"
    using binade_lower [OF assms] unfolding quantum_scale(2) .
  then have "of_int (2 ^ 52) \<le> r / quantum r"
    using quantum_pos [of r] by (simp add: field_simps)
  then have "2 ^ 52 \<le> rne (r / quantum r)" by (rule rne_lower)
  then have "2 ^ 52 \<le> real_of_int (rne (r / quantum r))"
    using of_int_le_iff [of "2 ^ 52" "rne (r / quantum r)", where ?'a = real] by simp
  then have "2 ^ 52 * quantum r \<le> nearest r"
    unfolding nearest_def using quantum_pos [of r] by (intro mult_right_mono) simp_all
  then show ?thesis using quantum_scale(2) [of r] by (simp add: mult.commute)
qed

lemma nearest_pos:
  assumes "2 powi (- 1074) \<le> r"
  shows "0 < nearest r"
proof -
  have pos: "0 < r" using assms zero_less_power_int [of "2::real" "- 1074"] by linarith
  have "quantum r \<le> r"
  proof (cases "2 powi (- 1022) \<le> r")
    case True
    have "quantum r * 1 \<le> quantum r * 2 ^ 52"
      using quantum_pos [of r] by (intro mult_left_mono) simp_all
    also have "\<dots> \<le> r" using binade_lower [OF True] unfolding quantum_scale(2) .
    finally show ?thesis by simp
  next
    case False
    then have "r < 2 powi (- 1023 + 1)" by simp
    then have "binade r \<le> - 1023 + 1" using pos by (intro binade_le) simp_all
    moreover have "- 1022 \<le> binade r" by (simp add: binade_def)
    ultimately have "binade r = - 1022" by simp
    then show ?thesis using assms by (simp add: quantum_def)
  qed
  then have "of_int 1 \<le> r / quantum r" using quantum_pos [of r] by (simp add: field_simps)
  then have "1 \<le> rne (r / quantum r)" by (rule rne_lower)
  then have "0 < real_of_int (rne (r / quantum r))" by simp
  then show ?thesis using quantum_pos [of r] by (simp add: nearest_def)
qed

lemma nearest_power_of_two:
  assumes "- 1022 \<le> k"
  shows "nearest (2 powi k) = 2 powi k"
proof -
  define r :: real where "r = 2 powi k"
  have pos: "0 < r" by (simp add: r_def zero_less_power_int)
  have "r < 2 powi (k + 1)" unfolding r_def by (intro power_int_strict_increasing) simp_all
  then have "binade r \<le> k" using pos assms by (intro binade_le)
  moreover have "k \<le> binade r" using pos by (intro binade_ge) (simp_all add: r_def)
  ultimately have "binade r = k" by simp
  then have q: "quantum r * 2 ^ 52 = r" using quantum_scale(2) [of r] by (simp add: r_def)
  then have "r / quantum r = of_int (2 ^ 52)"
    using quantum_pos [of r] by (simp add: field_simps)
  then have "rne (r / quantum r) = 2 ^ 52" by (simp only: rne_of_int)
  then have "nearest r = r" using q by (simp add: nearest_def mult.commute)
  then show ?thesis by (simp only: r_def)
qed

lemma nearest_one: "nearest 1 = 1"
proof -
  have b: "binade 1 = 0" by (simp add: binade_def)
  have q: "quantum 1 * 2 ^ 52 = 1" using quantum_scale(2) [of 1] by (simp only: b power_int_0_right)
  then have "1 / quantum 1 = of_int (2 ^ 52)"
    using quantum_pos [of 1] by (simp add: field_simps)
  then have "rne (1 / quantum 1) = 2 ^ 52" by (simp only: rne_of_int)
  then show ?thesis using q by (simp add: nearest_def mult.commute)
qed

lemma nearest_le_one:
  assumes "0 < r" and "r \<le> 1"
  shows "nearest r \<le> 1"
proof (cases "r = 1")
  case True
  then show ?thesis by (simp add: nearest_one)
next
  case False
  then have "r < 2 powi (- 1 + 1)" using assms by simp
  then have "binade r \<le> - 1" using assms by (intro binade_le) simp_all
  then have "(2::real) powi (binade r + 1) \<le> 2 powi 0"
    by (intro power_int_increasing) simp_all
  then show ?thesis using nearest_le_next_binade [OF assms(1)] by simp
qed

lemma nearest_ge_one:
  assumes "1 \<le> r"
  shows "1 \<le> nearest r"
proof -
  have "(2::real) powi (- 1022) \<le> 2 powi 0" by (intro power_int_increasing) simp_all
  then have n: "2 powi (- 1022) \<le> r" using assms by simp
  have "0 \<le> binade r" using assms by (intro binade_ge) simp_all
  then have "(2::real) powi 0 \<le> 2 powi binade r" by (intro power_int_increasing) simp_all
  then show ?thesis using nearest_ge_binade [OF n] by simp
qed

lemma nearest_le_max:
  assumes "0 < r" and "r < 2 ^ 1024 - 2 ^ 970"
  shows "nearest r \<le> dbl_max"
proof -
  have "r < 2 powi (1023 + 1)" using assms by simp
  then have b: "binade r \<le> 1023" using assms by (intro binade_le) simp_all
  show ?thesis
  proof (cases "binade r = 1023")
    case False
    then have "binade r + 1 \<le> 1023" using b by simp
    then have "(2::real) powi (binade r + 1) \<le> 2 powi 1023"
      by (intro power_int_increasing) simp_all
    then have "nearest r \<le> 2 ^ 1023" using nearest_le_next_binade [OF assms(1)] by simp
    then show ?thesis using dbl_max_ge by linarith
  next
    case True
    then have q: "quantum r = 2 ^ 971" by (simp add: quantum_def)
    have "(2::real) ^ 1024 - 2 ^ 970 = 2 ^ 971 * (2 ^ 53 - 1 / 2)"
      by (simp add: algebra_simps)
    then have "r / quantum r < of_int (2 ^ 53 - 1) + 1 / 2"
      using assms(2) by (simp add: q field_simps)
    then have "rne (r / quantum r) \<le> 2 ^ 53 - 1" by (rule rne_upper)
    then have "real_of_int (rne (r / quantum r)) \<le> 2 ^ 53 - 1"
      using of_int_le_iff [of "rne (r / quantum r)" "2 ^ 53 - 1", where ?'a = real] by simp
    then have "nearest r \<le> (2 ^ 53 - 1) * quantum r"
      unfolding nearest_def using quantum_pos [of r] by (intro mult_right_mono) simp_all
    then show ?thesis by (simp add: q dbl_max_eq mult.commute)
  qed
qed

lemma nearest_tiny:
  assumes "0 < r" and "r < 2 powi (- 1075)"
  shows "nearest r = 0"
proof -
  have "(2::real) powi (- 1075) \<le> 2 powi (- 1023 + 1)" by (intro power_int_increasing) simp_all
  then have "r < 2 powi (- 1023 + 1)" using assms by linarith
  then have "binade r \<le> - 1023 + 1" using assms by (intro binade_le) simp_all
  moreover have "- 1022 \<le> binade r" by (simp add: binade_def)
  ultimately have "binade r = - 1022" by simp
  then have q: "quantum r = 2 powi (- 1074)" by (simp add: quantum_def)
  have "(2::real) powi (- 1075 + 1) = 2 powi (- 1075) * 2 powi 1" by (rule power_int_add) simp
  then have "2 powi (- 1075) = quantum r / 2" by (simp add: q)
  then have "r / quantum r < of_int 0 + 1 / 2"
    using assms quantum_pos [of r] by (simp add: field_simps)
  then have "rne (r / quantum r) \<le> 0" by (rule rne_upper)
  moreover have "of_int 0 \<le> r / quantum r" using assms quantum_pos [of r] by simp
  then have "0 \<le> rne (r / quantum r)" by (rule rne_lower)
  ultimately show ?thesis by (simp add: nearest_def)
qed

lemma nearest_mono:
  assumes "0 < a" and "a \<le> b"
  shows "nearest a \<le> nearest b"
proof (cases "binade a = binade b")
  case True
  then have q: "quantum a = quantum b" by (simp add: quantum_def)
  have "a / quantum b \<le> b / quantum b"
    using assms quantum_pos [of b] by (intro divide_right_mono) simp_all
  then have "rne (a / quantum b) \<le> rne (b / quantum b)" by (rule rne_mono)
  then have "real_of_int (rne (a / quantum b)) \<le> real_of_int (rne (b / quantum b))" by simp
  then show ?thesis
    unfolding nearest_def q using quantum_pos [of b] by (intro mult_right_mono) simp_all
next
  case False
  have b: "0 < b" using assms by simp
  from False have lt: "binade a + 1 \<le> binade b" using binade_mono [OF assms] by simp
  then have "- 1022 < binade b" by (simp add: binade_def)
  then have fl: "binade b = \<lfloor>log 2 b\<rfloor>" using b by (simp add: binade_def max_def split: if_splits)
  have "(2::real) powi (- 1022) \<le> 2 powi binade b"
    by (intro power_int_increasing) (simp_all add: binade_def)
  also have "\<dots> \<le> b" unfolding fl by (rule binade_floor(1) [OF b])
  finally have "2 powi binade b \<le> nearest b" by (rule nearest_ge_binade)
  moreover have "(2::real) powi (binade a + 1) \<le> 2 powi binade b"
    using lt by (intro power_int_increasing) simp_all
  ultimately show ?thesis using nearest_le_next_binade [OF assms(1)] by linarith
qed

lemma nearest_error: "\<bar>nearest r - r\<bar> \<le> quantum r / 2"
proof -
  have "nearest r - r = (real_of_int (rne (r / quantum r)) - r / quantum r) * quantum r"
    using quantum_pos [of r] by (simp add: nearest_def algebra_simps)
  then have "\<bar>nearest r - r\<bar> = \<bar>real_of_int (rne (r / quantum r)) - r / quantum r\<bar> * quantum r"
    using quantum_pos [of r] by (simp add: abs_mult)
  also have "\<dots> \<le> 1 / 2 * quantum r"
    using quantum_pos [of r] rne_error [of "r / quantum r"] by (intro mult_right_mono) simp_all
  finally show ?thesis by simp
qed

lemma nearest_error_normal:
  assumes "2 powi (- 1022) \<le> r"
  shows "\<bar>nearest r - r\<bar> \<le> r / 2 ^ 53"
proof -
  have "quantum r * 2 ^ 52 \<le> r" using binade_lower [OF assms] unfolding quantum_scale(2) .
  then have "quantum r / 2 \<le> r / 2 ^ 53" by (simp add: field_simps)
  then show ?thesis using nearest_error [of r] by linarith
qed

lemma nearest_error_any:
  assumes "0 < r"
  shows "\<bar>nearest r - r\<bar> \<le> r / 2 ^ 53 + 1 / 2 ^ 1075"
proof (cases "2 powi (- 1022) \<le> r")
  case True
  then show ?thesis using nearest_error_normal [OF True] by (simp add: add_increasing2)
next
  case False
  then have "r < 2 powi (- 1023 + 1)" by simp
  then have "binade r \<le> - 1023 + 1" using assms by (intro binade_le) simp_all
  moreover have "- 1022 \<le> binade r" by (simp add: binade_def)
  ultimately have "binade r = - 1022" by simp
  then have "quantum r = 1 / 2 ^ 1074" by (simp add: quantum_def power_int_minus_divide)
  then have "quantum r / 2 = 1 / 2 ^ 1075" by simp
  then have "\<bar>nearest r - r\<bar> \<le> 1 / 2 ^ 1075" using nearest_error [of r] by simp
  moreover have "0 \<le> r / 2 ^ 53" using assms by simp
  ultimately show ?thesis by linarith
qed

lemma nearest_error_signed: "\<bar>nearest r - r\<bar> \<le> \<bar>r\<bar> / 2 ^ 53 + 1 / 2 ^ 1075"
proof (cases "r = 0")
  case True
  then show ?thesis by (simp add: nearest_zero)
next
  case False
  then have pos: "0 < \<bar>r\<bar>" by simp
  have "\<bar>nearest r - r\<bar> \<le> quantum \<bar>r\<bar> / 2" using nearest_error [of r] by (simp only: quantum_abs)
  moreover have "quantum \<bar>r\<bar> / 2 \<le> \<bar>r\<bar> / 2 ^ 53 + 1 / 2 ^ 1075"
  proof (cases "2 powi (- 1022) \<le> \<bar>r\<bar>")
    case True
    have "quantum \<bar>r\<bar> * 2 ^ 52 \<le> \<bar>r\<bar>" using binade_lower [OF True] unfolding quantum_scale(2) .
    then have "quantum \<bar>r\<bar> / 2 \<le> \<bar>r\<bar> / 2 ^ 53" by (simp add: field_simps)
    then show ?thesis by (simp add: add_increasing2)
  next
    case False
    then have "\<bar>r\<bar> < 2 powi (- 1023 + 1)" by simp
    then have "binade \<bar>r\<bar> \<le> - 1023 + 1" using pos by (intro binade_le) simp_all
    moreover have "- 1022 \<le> binade \<bar>r\<bar>" by (simp add: binade_def)
    ultimately have "binade \<bar>r\<bar> = - 1022" by simp
    then have "quantum \<bar>r\<bar> = 1 / 2 ^ 1074" by (simp add: quantum_def power_int_minus_divide)
    then have "quantum \<bar>r\<bar> / 2 = 1 / 2 ^ 1075" by simp
    moreover have "0 \<le> \<bar>r\<bar> / 2 ^ 53" by simp
    ultimately show ?thesis by linarith
  qed
  ultimately show ?thesis by linarith
qed

lemma nearest_one_plus_max: "nearest (1 + dbl_max) = dbl_max"
proof (rule antisym)
  have pos: "0 < 1 + dbl_max" using dbl_max_pos by simp
  have small: "1 + dbl_max < 2 ^ 1024 - 2 ^ 970" by (simp add: dbl_max_def)
  show "nearest (1 + dbl_max) \<le> dbl_max" by (rule nearest_le_max [OF pos small])
  define q where "q = quantum (1 + dbl_max)"
  define n where "n = rne ((1 + dbl_max) / q)"
  have "1 + dbl_max < 2 powi (1023 + 1)" using dbl_max_lt small by simp
  then have "binade (1 + dbl_max) \<le> 1023" using pos by (intro binade_le) simp_all
  moreover have "1023 \<le> binade (1 + dbl_max)"
    using pos dbl_max_ge by (intro binade_ge) simp_all
  ultimately have q: "q = 2 ^ 971" by (simp add: q_def quantum_def)
  have "of_int (2 ^ 53 - 1) \<le> (1 + dbl_max) / q"
    by (simp add: q dbl_max_eq field_simps)
  then have "2 ^ 53 - 1 \<le> n" unfolding n_def by (rule rne_lower)
  then have "2 ^ 53 - 1 \<le> real_of_int n"
    using of_int_le_iff [of "2 ^ 53 - 1" n, where ?'a = real] by simp
  then have "(2 ^ 53 - 1) * q \<le> real_of_int n * q"
    by (intro mult_right_mono) (simp_all add: q)
  then have "dbl_max \<le> real_of_int n * q" by (simp add: q dbl_max_eq mult.commute)
  then show "dbl_max \<le> nearest (1 + dbl_max)" by (simp only: nearest_def n_def q_def)
qed

lemma nearest_inv_max: "nearest (1 / dbl_max) = 1 / 2 ^ 1024"
proof -
  define r where "r = 1 / dbl_max"
  define q where "q = quantum r"
  have pos: "0 < r" using dbl_max_pos by (simp add: r_def)
  have "r \<le> 1 / 2 ^ 1023"
    unfolding r_def using dbl_max_ge by (intro divide_left_mono) simp_all
  also have "\<dots> < 1 / 2 ^ 1022" by simp
  also have "\<dots> = 2 powi (- 1023 + 1)" by (simp add: power_int_minus_divide)
  finally have "binade r \<le> - 1023 + 1" using pos by (intro binade_le) simp_all
  moreover have "- 1022 \<le> binade r" by (simp add: binade_def)
  ultimately have "binade r = - 1022" by simp
  then have q: "q = 1 / 2 ^ 1074" by (simp add: q_def quantum_def power_int_minus_divide)
  have ratio: "r / q = 2 ^ 103 / (2 ^ 53 - 1)"
    by (simp add: q r_def dbl_max_eq field_simps)
  have "of_int (2 ^ 50) \<le> r / q" unfolding ratio by (simp add: field_simps)
  then have lo: "2 ^ 50 \<le> rne (r / q)" by (rule rne_lower)
  have "r / q < of_int (2 ^ 50) + 1 / 2" unfolding ratio by (simp add: field_simps)
  then have "rne (r / q) \<le> 2 ^ 50" by (rule rne_upper)
  with lo have "rne (r / q) = 2 ^ 50" by simp
  then have "real_of_int (rne (r / q)) * q = 1 / 2 ^ 1024" by (simp add: q)
  then show ?thesis by (simp only: nearest_def q_def r_def)
qed

lemma nearest_below_one: "nearest (1 - 1 / 2 ^ 1024) = 1"
proof -
  define r :: real where "r = 1 - 1 / 2 ^ 1024"
  define q where "q = quantum r"
  have r: "1 / 2 \<le> r" "r < 1" by (simp_all add: r_def)
  have pos: "0 < r" using r by simp
  have "r < 2 powi (- 1 + 1)" using r by simp
  then have "binade r \<le> - 1" using pos by (intro binade_le) simp_all
  moreover have "- 1 \<le> binade r"
    using pos r by (intro binade_ge) (simp_all add: power_int_minus_divide)
  ultimately have "binade r = - 1" by simp
  then have q: "q = 1 / 2 ^ 53" by (simp add: q_def quantum_def power_int_minus_divide)
  have "of_int (2 ^ 53) - 1 / 2 < r / q" by (simp add: q r_def)
  then have lo: "2 ^ 53 \<le> rne (r / q)" by (rule rne_round_up)
  have "r / q < of_int (2 ^ 53) + 1 / 2" using r by (simp add: q)
  then have "rne (r / q) \<le> 2 ^ 53" by (rule rne_upper)
  with lo have "rne (r / q) = 2 ^ 53" by simp
  then have "real_of_int (rne (r / q)) * q = 1" by (simp add: q)
  then show ?thesis by (simp only: nearest_def q_def r_def)
qed

lemma nearest_two_powi_1024: "nearest (1 / 2 ^ 1024) = 1 / 2 ^ 1024"
proof -
  define r :: real where "r = 1 / 2 ^ 1024"
  define q where "q = quantum r"
  have pos: "0 < r" by (simp add: r_def)
  have "r < 2 powi (- 1023 + 1)" by (simp add: r_def power_int_minus_divide)
  then have "binade r \<le> - 1023 + 1" using pos by (intro binade_le) simp_all
  moreover have "- 1022 \<le> binade r" by (simp add: binade_def)
  ultimately have "binade r = - 1022" by simp
  then have q: "q = 1 / 2 ^ 1074" by (simp add: q_def quantum_def power_int_minus_divide)
  have "r / q = of_int (2 ^ 50)" by (simp add: q r_def)
  then have "rne (r / q) = 2 ^ 50" by (simp only: rne_of_int)
  then have "real_of_int (rne (r / q)) * q = 1 / 2 ^ 1024" by (simp add: q)
  then show ?thesis by (simp only: nearest_def q_def r_def)
qed

lemma binary64_finite:
  assumes "0 < r" and "r < 2 ^ 1024 - 2 ^ 970"
  shows "binary64 r = Fin (nearest r)"
  using assms nearest_nonneg [OF assms(1)] nearest_le_max [OF assms] dbl_max_pos
  by (simp add: binary64_def)

lemma binary64_bounded:
  assumes "\<bar>nearest r\<bar> \<le> dbl_max"
  shows "binary64 r = Fin (nearest r)"
  using assms by (auto simp: binary64_def nearest_zero)

lemma binary64_zero: "binary64 0 = Fin 0"
  by (simp add: binary64_def)

lemma binary64_one: "binary64 1 = Fin 1"
  using dbl_max_ge by (simp add: binary64_def nearest_one)

lemma binary64_half: "binary64 (1 / 2) = Fin (1 / 2)"
proof -
  have "nearest (1 / 2) = 1 / 2"
    using nearest_power_of_two [of "- 1"] by (simp add: power_int_minus_divide)
  then show ?thesis using dbl_max_ge by (simp add: binary64_def)
qed


lemma nearest_in_binade:
  assumes "2 powi k \<le> r" and "r < 2 powi (k + 1)" and "- 1022 \<le> k"
    and "of_int n - 1 / 2 < r / 2 powi (k - 52)" and "r / 2 powi (k - 52) < of_int n + 1 / 2"
  shows "nearest r = of_int n * 2 powi (k - 52)"
proof -
  have pos: "0 < r" using assms(1) zero_less_power_int [of "2::real" k] by linarith
  have "binade r \<le> k" using pos assms(2,3) by (rule binade_le)
  moreover have "k \<le> binade r" using pos assms(1) by (rule binade_ge)
  ultimately have "binade r = k" by simp
  then have q: "quantum r = 2 powi (k - 52)" by (simp add: quantum_def)
  have "n \<le> rne (r / quantum r)" unfolding q using assms(4) by (rule rne_round_up)
  moreover have "rne (r / quantum r) \<le> n" unfolding q using assms(5) by (rule rne_upper)
  ultimately have "rne (r / quantum r) = n" by simp
  then show ?thesis by (simp add: nearest_def q)
qed

lemma nearest_error_binade:
  assumes "2 powi k \<le> r" and "r < 2 powi (k + 1)" and "- 1022 \<le> k"
  shows "\<bar>nearest r - r\<bar> \<le> 2 powi (k - 53)"
proof -
  have pos: "0 < r" using assms(1) zero_less_power_int [of "2::real" k] by linarith
  have "binade r \<le> k" using pos assms(2,3) by (rule binade_le)
  moreover have "k \<le> binade r" using pos assms(1) by (rule binade_ge)
  ultimately have "binade r = k" by simp
  then have q: "quantum r = 2 powi (k - 52)" by (simp add: quantum_def)
  have "k - 52 = (k - 53) + 1" by simp
  then have "(2::real) powi (k - 52) = 2 powi ((k - 53) + 1)" by (rule arg_cong)
  also have "\<dots> = 2 powi (k - 53) * 2 powi 1" by (rule power_int_add) simp
  finally have "quantum r / 2 = 2 powi (k - 53)" by (simp add: q)
  then show ?thesis using nearest_error [of r] by simp
qed

lemma nearest_one_plus_tiny:
  assumes "0 \<le> t" and "t \<le> 1 / 2 ^ 53"
  shows "nearest (1 + t) = 1"
proof (rule antisym)
  show "1 \<le> nearest (1 + t)" using assms by (intro nearest_ge_one) simp
  define r :: real where "r = 1 + 1 / 2 ^ 53"
  have "(2::real) powi 0 \<le> r" by (simp add: r_def)
  then have "0 \<le> binade r" by (intro binade_ge) (simp_all add: r_def)
  moreover have "r < 2 powi (0 + 1)" by (simp add: r_def)
  then have "binade r \<le> 0" by (intro binade_le) (simp_all add: r_def)
  ultimately have "binade r = 0" by simp
  then have q: "quantum r = 1 / 2 ^ 52" by (simp add: quantum_def power_int_minus_divide)
  define z :: real where "z = of_int (2 ^ 52) + 1 / 2"
  have "r / (1 / 2 ^ 52) = z" by (simp add: r_def z_def)
  then have "r / quantum r = z" by (simp only: q)
  moreover have "rne z = 2 ^ 52"
    by (simp add: rne_def Let_def z_def)
  ultimately have "rne (r / quantum r) = 2 ^ 52" by (simp only:)
  then have "nearest r = 1" unfolding nearest_def q by simp
  moreover have "nearest (1 + t) \<le> nearest r"
    unfolding r_def using assms by (intro nearest_mono) simp_all
  ultimately show "nearest (1 + t) \<le> 1" by simp
qed


section \<open>The forward evaluation in double arithmetic\<close>

lemma exp_million_tiny: "exp (- (10 ^ 6)) < (2::real) powi (- 1075)"
proof -
  have "ln ((2::real) ^ 1075) = 1075 * ln 2" by (subst ln_realpow) simp_all
  also have "\<dots> < 1075 * 1" using ln_2_less_1 by (intro mult_strict_left_mono) simp_all
  also have "\<dots> < 10 ^ 6" by simp
  finally have "exp (ln ((2::real) ^ 1075)) < exp (10 ^ 6)" by (simp only: exp_less_cancel_iff)
  then have "(2::real) ^ 1075 < exp (10 ^ 6)" by simp
  then have "1 / exp (10 ^ 6) < 1 / (2::real) ^ 1075"
    by (intro divide_strict_left_mono) simp_all
  then show ?thesis by (simp add: exp_minus power_int_minus_divide inverse_eq_divide)
qed

lemma fn_binary64_million: "fn binary64 (Fin (10 ^ 6)) = Fin 1"
proof -
  have "nearest (exp (- (10 ^ 6))) = 0" by (rule nearest_tiny [OF _ exp_million_tiny]) simp
  then have e: "binary64 (exp (- (10 ^ 6))) = Fin 0"
    using dbl_max_pos by (simp add: binary64_def)
  have "\<not> log_max \<le> - (10 ^ 6)" using log_max_pos by simp
  then have "trunc_exp binary64 (Fin (- (10 ^ 6))) = Fin 0" using e by (simp add: trunc_exp_def)
  then show ?thesis by (simp add: fn_def binary64_one)
qed

lemma fn_binary64_truncated:
  assumes "log_max \<le> - x"
  shows "fn binary64 (Fin x) = Fin (1 / 2 ^ 1024)"
proof -
  have t: "trunc_exp binary64 (Fin (- x)) = Fin dbl_max"
    using assms by (simp add: trunc_exp_def)
  have s: "binary64 (1 + dbl_max) = Fin dbl_max"
    using dbl_max_pos by (simp add: binary64_def nearest_one_plus_max)
  have "(1::real) / 2 ^ 1024 \<le> 2 ^ 1023" by simp
  then have "1 / 2 ^ 1024 \<le> dbl_max" using dbl_max_ge by linarith
  then have y: "binary64 (1 / dbl_max) = Fin (1 / 2 ^ 1024)"
    using dbl_max_pos by (simp add: binary64_def nearest_inv_max)
  show ?thesis using t s y dbl_max_pos by (simp add: fn_def)
qed

lemma fn_binary64_minus_million: "fn binary64 (Fin (- (10 ^ 6))) = Fin (1 / 2 ^ 1024)"
proof -
  have "log_max \<le> - (- (10 ^ 6))" using log_max_less by simp
  then show ?thesis by (rule fn_binary64_truncated)
qed

lemma fn_binary64_zero: "fn binary64 (Fin 0) = Fin (1 / 2)"
proof -
  have two: "nearest 2 = 2" using nearest_power_of_two [of 1] by simp
  have half: "nearest (1 / 2) = 1 / 2"
    using nearest_power_of_two [of "- 1"] by (simp add: power_int_minus_divide)
  have "\<not> log_max \<le> - 0" using log_max_pos by simp
  then have "trunc_exp binary64 (Fin (- 0)) = Fin 1"
    by (simp add: trunc_exp_def binary64_one)
  moreover have "binary64 2 = Fin 2" using dbl_max_ge by (simp add: binary64_def two)
  moreover have "binary64 (1 / 2) = Fin (1 / 2)"
    using dbl_max_ge by (simp add: binary64_def half)
  ultimately show ?thesis by (simp add: fn_def)
qed

lemma reciprocal_close:
  fixes a b :: real
  assumes "1 \<le> a" and "0 < b"
  shows "\<bar>1 / a - 1 / b\<bar> \<le> \<bar>a - b\<bar> / b"
proof -
  have a: "0 < a" using assms by simp
  have "1 / a - 1 / b = (b - a) / (a * b)" using a assms by (simp add: field_simps)
  then have "\<bar>1 / a - 1 / b\<bar> = \<bar>a - b\<bar> / (a * b)"
    using a assms by (simp add: abs_mult abs_minus_commute)
  also have "\<dots> \<le> \<bar>a - b\<bar> / b"
    using assms a by (intro divide_left_mono) (simp_all add: mult_pos_pos)
  finally show ?thesis .
qed

lemma scaled_error:
  fixes d e u w :: real
  assumes "0 < e" and "0 \<le> u" and "0 \<le> w" and "d \<le> e * u + w"
  shows "d / (1 + e) \<le> u + w"
proof -
  have "0 \<le> u + e * w" using assms by simp
  then have "e * u + w \<le> (u + w) * (1 + e)" by (simp add: algebra_simps)
  then have "d \<le> (u + w) * (1 + e)" using assms(4) by linarith
  then show ?thesis using assms(1) by (simp add: pos_divide_le_eq)
qed

lemma trunc_exp_binary64_close:
  "\<exists>t. trunc_exp binary64 (Fin u) = Fin t \<and> 0 \<le> t \<and> t \<le> dbl_max \<and>
       \<bar>1 / (1 + t) - 1 / (1 + exp u)\<bar> \<le> 1 / 2 ^ 53 + 1 / 2 ^ 1023"
proof (cases "log_max \<le> u")
  case True
  have "1 / (1 + dbl_max) \<le> 1 / 2 ^ 1023"
    using dbl_max_ge by (intro divide_left_mono) simp_all
  moreover have "0 < 1 / (1 + dbl_max)" using dbl_max_pos by (simp add: add_pos_pos)
  ultimately have "\<bar>1 / (1 + dbl_max) - 1 / (1 + exp u)\<bar> \<le> 1 / 2 ^ 1023"
    using truncated_small [OF True] by linarith
  then have "\<bar>1 / (1 + dbl_max) - 1 / (1 + exp u)\<bar> \<le> 1 / 2 ^ 53 + 1 / 2 ^ 1023"
    by simp
  then show ?thesis using True dbl_max_pos by (simp add: trunc_exp_def)
next
  case False
  define e where "e = exp u"
  define t where "t = nearest e"
  define v :: real where "v = 1 / 2 ^ 53"
  define w :: real where "w = 1 / 2 ^ 1075"
  have e: "0 < e" by (simp add: e_def)
  have "e < exp log_max" using False by (simp add: e_def)
  then have "e < dbl_max" by (simp only: exp_log_max)
  moreover have "dbl_max < 2 ^ 1024 - 2 ^ 970" by (simp add: dbl_max_def)
  ultimately have small: "e < 2 ^ 1024 - 2 ^ 970" by linarith
  have b: "binary64 e = Fin t" unfolding t_def by (rule binary64_finite [OF e small])
  have t0: "0 \<le> t" unfolding t_def by (rule nearest_nonneg [OF e])
  have t1: "t \<le> dbl_max" unfolding t_def by (rule nearest_le_max [OF e small])
  have "\<bar>t - e\<bar> \<le> e / 2 ^ 53 + 1 / 2 ^ 1075"
    unfolding t_def by (rule nearest_error_any [OF e])
  then have "\<bar>(1 + t) - (1 + e)\<bar> \<le> e * v + w" by (simp add: v_def w_def)
  then have "\<bar>(1 + t) - (1 + e)\<bar> / (1 + e) \<le> v + w"
    using e by (intro scaled_error) (simp_all add: v_def w_def)
  moreover have "\<bar>1 / (1 + t) - 1 / (1 + e)\<bar> \<le> \<bar>(1 + t) - (1 + e)\<bar> / (1 + e)"
    using t0 e by (intro reciprocal_close) simp_all
  moreover have "w \<le> 1 / 2 ^ 1023" by (simp add: w_def)
  ultimately have "\<bar>1 / (1 + t) - 1 / (1 + e)\<bar> \<le> v + 1 / 2 ^ 1023" by linarith
  then show ?thesis using False b t0 t1 by (simp add: trunc_exp_def e_def v_def)
qed

lemma fn_binary64_value:
  "\<exists>y. fn binary64 (Fin x) = Fin y \<and> 0 < y \<and> y \<le> 1 \<and>
       \<bar>y - 1 / (1 + exp (- x))\<bar> \<le> 1 / 2 ^ 51"
proof -
  define v :: real where "v = 1 / 2 ^ 53"
  obtain t where t: "trunc_exp binary64 (Fin (- x)) = Fin t" "0 \<le> t" "t \<le> dbl_max"
    and terr: "\<bar>1 / (1 + t) - 1 / (1 + exp (- x))\<bar> \<le> v + 1 / 2 ^ 1023"
    using trunc_exp_binary64_close [of "- x"] unfolding v_def by blast
  have "1 + dbl_max < 2 ^ 1024 - 2 ^ 970" by (simp add: dbl_max_def)
  then have small: "1 + t < 2 ^ 1024 - 2 ^ 970" and pos: "0 < 1 + t" and one: "1 \<le> 1 + t"
    using t by simp_all
  define s where "s = nearest (1 + t)"
  have s: "binary64 (1 + t) = Fin s" unfolding s_def by (rule binary64_finite [OF pos small])
  have s1: "1 \<le> s" unfolding s_def by (rule nearest_ge_one [OF one])
  have s2: "s \<le> dbl_max" unfolding s_def by (rule nearest_le_max [OF pos small])
  have "(2::real) powi (- 1022) \<le> 2 powi 0" by (intro power_int_increasing) simp_all
  then have "2 powi (- 1022) \<le> 1 + t" using one by simp
  then have "\<bar>s - (1 + t)\<bar> \<le> (1 + t) / 2 ^ 53"
    unfolding s_def by (rule nearest_error_normal)
  then have "\<bar>s - (1 + t)\<bar> \<le> v * (1 + t)" by (simp add: v_def)
  then have "\<bar>s - (1 + t)\<bar> / (1 + t) \<le> v" using pos by (simp only: pos_divide_le_eq)
  then have serr: "\<bar>1 / s - 1 / (1 + t)\<bar> \<le> v"
    using reciprocal_close [OF s1 pos] by linarith
  define y where "y = nearest (1 / s)"
  have r0: "0 < 1 / s" and r1: "1 / s \<le> 1" using s1 by simp_all
  have "1 / s < 2 ^ 1024 - 2 ^ 970" using r1 by simp
  then have y: "binary64 (1 / s) = Fin y" unfolding y_def by (rule binary64_finite [OF r0])
  have "(2::real) powi (- 1074) \<le> 2 powi (- 1024)" by (intro power_int_increasing) simp_all
  also have "\<dots> = 1 / 2 ^ 1024" by (simp add: power_int_minus_divide)
  also have "\<dots> \<le> 1 / dbl_max"
    using dbl_max_lt dbl_max_pos by (intro divide_left_mono) simp_all
  also have "\<dots> \<le> 1 / s" using s1 s2 by (intro divide_left_mono) simp_all
  finally have y0: "0 < y" unfolding y_def by (rule nearest_pos)
  have y1: "y \<le> 1" unfolding y_def by (rule nearest_le_one [OF r0 r1])
  have "\<bar>y - 1 / s\<bar> \<le> (1 / s) / 2 ^ 53 + 1 / 2 ^ 1075"
    unfolding y_def by (rule nearest_error_any [OF r0])
  moreover have "(1 / s) / 2 ^ 53 \<le> 1 / 2 ^ 53"
    using r1 by (intro divide_right_mono) simp_all
  ultimately have yerr: "\<bar>y - 1 / s\<bar> \<le> v + 1 / 2 ^ 1075" unfolding v_def by linarith
  have "(1::real) / 2 ^ 1075 + 1 / 2 ^ 1023 \<le> v" by (simp add: v_def)
  then have "\<bar>y - 1 / (1 + exp (- x))\<bar> \<le> 4 * v"
    using yerr serr terr by linarith
  then have "\<bar>y - 1 / (1 + exp (- x))\<bar> \<le> 1 / 2 ^ 51" by (simp add: v_def)
  moreover have "fn binary64 (Fin x) = Fin y"
    using s1 by (simp add: fn_def t s y)
  ultimately show ?thesis using y0 y1 by blast
qed

lemma fn_sum_binary64:
  "\<exists>s. dadd binary64 (fn binary64 (Fin x)) (fn binary64 (Fin (- x))) = Fin s \<and>
       \<bar>s - 1\<bar> < 1 / 10 ^ 9"
proof -
  obtain a where a: "fn binary64 (Fin x) = Fin a"
    and aerr: "\<bar>a - 1 / (1 + exp (- x))\<bar> \<le> 1 / 2 ^ 51"
    using fn_binary64_value [of x] by blast
  obtain b where b: "fn binary64 (Fin (- x)) = Fin b"
    and berr: "\<bar>b - 1 / (1 + exp x)\<bar> \<le> 1 / 2 ^ 51"
    using fn_binary64_value [of "- x"] by auto
  define r where "r = a + b"
  have "\<bar>r - 1\<bar> \<le> 1 / 2 ^ 51 + 1 / 2 ^ 51"
    unfolding r_def using aerr berr logistic_sum [of x] by linarith
  then have rerr: "\<bar>r - 1\<bar> \<le> 1 / 2 ^ 50" by simp
  have "(1::real) / 2 ^ 50 \<le> 1 / 2" by simp
  then have r: "1 / 2 \<le> r" "r \<le> 2" using rerr by linarith+
  have pos: "0 < r" using r by simp
  have small: "r < 2 ^ 1024 - 2 ^ 970" using r by simp
  have "(2::real) powi (- 1022) \<le> 2 powi (- 1)" by (intro power_int_increasing) simp_all
  then have "2 powi (- 1022) \<le> r" using r by simp
  then have "\<bar>nearest r - r\<bar> \<le> r / 2 ^ 53" by (rule nearest_error_normal)
  moreover have "r / 2 ^ 53 \<le> 2 / 2 ^ 53" using r by (intro divide_right_mono) simp_all
  ultimately have "\<bar>nearest r - 1\<bar> \<le> 1 / 2 ^ 50 + 2 / 2 ^ 53" using rerr by linarith
  also have "\<dots> < 1 / 10 ^ 9" by simp
  finally have "\<bar>nearest r - 1\<bar> < 1 / 10 ^ 9" .
  moreover have "dadd binary64 (fn binary64 (Fin x)) (fn binary64 (Fin (- x))) = Fin (nearest r)"
    using binary64_finite [OF pos small] by (simp add: a b r_def)
  ultimately show ?thesis by blast
qed

lemma trunc_exp_binary64:
  "trunc_exp binary64 (Fin u) = Fin (if log_max \<le> u then dbl_max else nearest (exp u))"
  "0 \<le> (if log_max \<le> u then dbl_max else nearest (exp u))"
  "(if log_max \<le> u then dbl_max else nearest (exp u)) \<le> dbl_max"
proof -
  have small: "exp u < 2 ^ 1024 - 2 ^ 970" if "\<not> log_max \<le> u"
  proof -
    have "exp u < exp log_max" using that by simp
    then have "exp u < dbl_max" by (simp only: exp_log_max)
    moreover have "dbl_max < 2 ^ 1024 - 2 ^ 970" by (simp add: dbl_max_def)
    ultimately show ?thesis by linarith
  qed
  show "trunc_exp binary64 (Fin u) = Fin (if log_max \<le> u then dbl_max else nearest (exp u))"
    using binary64_finite [OF _ small] by (simp add: trunc_exp_def)
  show "0 \<le> (if log_max \<le> u then dbl_max else nearest (exp u))"
    using dbl_max_pos nearest_nonneg [of "exp u"] by simp
  show "(if log_max \<le> u then dbl_max else nearest (exp u)) \<le> dbl_max"
    using nearest_le_max [OF _ small] by simp
qed

lemma trunc_exp_binary64_mono:
  assumes "u1 \<le> u2"
  shows "(if log_max \<le> u1 then dbl_max else nearest (exp u1))
       \<le> (if log_max \<le> u2 then dbl_max else nearest (exp u2))"
proof (cases "log_max \<le> u2")
  case True
  then show ?thesis using trunc_exp_binary64(3) [of u1] by simp
next
  case False
  then have "\<not> log_max \<le> u1" using assms by simp
  moreover have "nearest (exp u1) \<le> nearest (exp u2)"
    using assms by (intro nearest_mono) simp_all
  ultimately show ?thesis using False by simp
qed

lemma fn_binary64_monotone:
  assumes "x1 \<le> x2"
  shows "dle (fn binary64 (Fin x1)) (fn binary64 (Fin x2))"
proof -
  define T where "T u = (if log_max \<le> u then dbl_max else nearest (exp u))" for u
  have T: "trunc_exp binary64 (Fin u) = Fin (T u)" "0 \<le> T u" "T u \<le> dbl_max" for u
    unfolding T_def by (rule trunc_exp_binary64)+
  have "1 + dbl_max < 2 ^ 1024 - 2 ^ 970" by (simp add: dbl_max_def)
  then have small: "1 + T u < 2 ^ 1024 - 2 ^ 970" for u using T(3) [of u] by linarith
  have pos: "0 < 1 + T u" and one: "1 \<le> 1 + T u" for u using T(2) [of u] by simp_all
  have S: "binary64 (1 + T u) = Fin (nearest (1 + T u))" for u
    by (rule binary64_finite [OF pos small])
  have S1: "1 \<le> nearest (1 + T u)" for u by (rule nearest_ge_one [OF one])
  have r0: "0 < 1 / nearest (1 + T u)" and r1: "1 / nearest (1 + T u) \<le> 1" for u
    using S1 [of u] by simp_all
  have "1 / nearest (1 + T u) < 2 ^ 1024 - 2 ^ 970" for u using r1 [of u] by simp
  then have Y: "binary64 (1 / nearest (1 + T u)) = Fin (nearest (1 / nearest (1 + T u)))" for u
    by (rule binary64_finite [OF r0])
  have f: "fn binary64 (Fin x) = Fin (nearest (1 / nearest (1 + T (- x))))" for x
    using S1 [of "- x"] by (simp add: fn_def T(1) S Y)
  have "T (- x2) \<le> T (- x1)"
    unfolding T_def using assms by (intro trunc_exp_binary64_mono) simp
  then have "nearest (1 + T (- x2)) \<le> nearest (1 + T (- x1))"
    using pos [of "- x2"] by (intro nearest_mono) simp_all
  then have "1 / nearest (1 + T (- x1)) \<le> 1 / nearest (1 + T (- x2))"
    using S1 [of "- x2"] by (intro divide_left_mono) (simp_all add: mult_pos_pos)
  then have "nearest (1 / nearest (1 + T (- x1))) \<le> nearest (1 / nearest (1 + T (- x2)))"
    using r0 [of "- x1"] by (intro nearest_mono)
  then show ?thesis by (simp add: f)
qed


lemma fn_binary64_saturated:
  assumes "37 \<le> x"
  shows "fn binary64 (Fin x) = Fin 1"
proof -
  define e where "e = exp (- x)"
  have e: "0 < e" by (simp add: e_def)
  have "e \<le> exp (- 37)" using assms by (simp add: e_def)
  then have small: "e \<le> 1 / 2 ^ 53" using exp_minus_thirty_seven by linarith
  then have "e < 2 ^ 1024 - 2 ^ 970" by (rule order_le_less_trans) simp
  then have b: "binary64 e = Fin (nearest e)" by (rule binary64_finite [OF e])
  have "nearest e \<le> nearest (2 powi (- 53))"
    using e small by (intro nearest_mono) (simp_all add: power_int_minus_divide)
  then have t: "nearest e \<le> 1 / 2 ^ 53"
    using nearest_power_of_two [of "- 53"] by (simp add: power_int_minus_divide)
  have t0: "0 \<le> nearest e" by (rule nearest_nonneg [OF e])
  have "\<not> log_max \<le> - x" using log_max_pos assms by linarith
  then have "trunc_exp binary64 (Fin (- x)) = Fin (nearest e)"
    using b by (simp add: trunc_exp_def e_def)
  moreover have "binary64 (1 + nearest e) = Fin 1"
    using binary64_bounded [of "1 + nearest e"] nearest_one_plus_tiny [OF t0 t] dbl_max_ge
    by simp
  ultimately show ?thesis by (simp add: fn_def binary64_one)
qed

lemma fn_binary64_thirty_six: "fn binary64 (Fin 36) = Fin (1 - 1 / 2 ^ 52)"
proof -
  define e where "e = exp (- 36 :: real)"
  define t where "t = nearest e"
  define h :: real where "h = 1 / 2 ^ 52"
  have h: "0 < h" "h = 2 powi (- 52)" by (simp_all add: h_def power_int_minus_divide)
  have inv: "e = 1 / exp 36" by (simp add: e_def exp_minus field_simps)
  have e: "0 < e" by (simp add: e_def)
  have lo: "h \<le> e"
  proof -
    have "exp (36::real) \<le> 2 ^ 52" using exp_thirty_six(1) by simp
    then have "1 / 2 ^ 52 \<le> 1 / exp (36::real)" by (intro divide_left_mono) simp_all
    then show ?thesis by (simp only: inv h_def)
  qed
  have hi: "e \<le> 6 / 5 * h"
  proof -
    have "5 / 6 * 2 ^ 52 \<le> exp (36::real)" using exp_thirty_six(2) by simp
    then have "1 / exp (36::real) \<le> 1 / (5 / 6 * 2 ^ 52)" by (intro divide_left_mono) simp_all
    then show ?thesis by (simp add: inv h_def)
  qed
  have "e < 2 ^ 1024 - 2 ^ 970" using hi by (simp add: h_def)
  then have be: "binary64 e = Fin t" unfolding t_def by (rule binary64_finite [OF e])
  have "nearest h \<le> nearest e" using h lo by (intro nearest_mono)
  moreover have "nearest h = h" unfolding h(2) by (rule nearest_power_of_two) simp
  ultimately have tlo: "h \<le> t" by (simp add: t_def)
  have "(2::real) powi (- 1022) \<le> 2 powi (- 52)" by (intro power_int_increasing) simp_all
  then have "2 powi (- 1022) \<le> e" using lo h by linarith
  then have "\<bar>t - e\<bar> \<le> e / 2 ^ 53" unfolding t_def by (rule nearest_error_normal)
  moreover have "e / 2 ^ 53 \<le> e / 24" using e by (intro divide_left_mono) simp_all
  ultimately have thi: "t \<le> 5 / 4 * h" using hi by linarith
  \<comment> \<open>the sum\<close>
  define s where "s = 1 + t"
  have s: "1 + h \<le> s" "s \<le> 1 + 5 / 4 * h" using tlo thi by (simp_all add: s_def)
  have "nearest s = of_int (2 ^ 52 + 1) * 2 powi (0 - 52)"
  proof (rule nearest_in_binade)
    show "2 powi 0 \<le> s" using s h by simp
    show "s < 2 powi (0 + 1)" using s by (simp add: h_def)
    show "- 1022 \<le> (0::int)" by simp
    have "s / 2 powi (0 - 52) = s * 2 ^ 52" by (simp add: power_int_minus_divide)
    moreover have "(1 + h) * 2 ^ 52 \<le> s * 2 ^ 52" using s by (intro mult_right_mono) simp_all
    moreover have "s * 2 ^ 52 \<le> (1 + 5 / 4 * h) * 2 ^ 52"
      using s by (intro mult_right_mono) simp_all
    moreover have "(1 + h) * 2 ^ 52 = 2 ^ 52 + 1" "(1 + 5 / 4 * h) * 2 ^ 52 = 2 ^ 52 + 5 / 4"
      by (simp_all add: h_def algebra_simps)
    ultimately show "of_int (2 ^ 52 + 1) - 1 / 2 < s / 2 powi (0 - 52)"
      and "s / 2 powi (0 - 52) < of_int (2 ^ 52 + 1) + 1 / 2"
      by simp_all
  qed
  then have ns: "nearest s = 1 + h" by (simp add: power_int_minus_divide h_def field_simps)
  have "\<bar>nearest s\<bar> \<le> dbl_max" using dbl_max_ge unfolding ns h_def
    by (rule order_trans [rotated]) simp
  then have "binary64 s = Fin (1 + h)"
    using binary64_bounded [of s] by (simp add: ns)
  then have bs: "binary64 (1 + t) = Fin (1 + h)" by (simp only: s_def)
  \<comment> \<open>the reciprocal\<close>
  define r where "r = 1 / (1 + h)"
  have "nearest r = of_int (2 ^ 53 - 2) * 2 powi (- 1 - 52)"
  proof (rule nearest_in_binade)
    show "2 powi (- 1) \<le> r" by (simp add: r_def h_def power_int_minus_divide)
    show "r < 2 powi (- 1 + 1)" by (simp add: r_def h_def)
    show "- 1022 \<le> (- 1 :: int)" by simp
    have "r / 2 powi (- 1 - 52) = r * 2 ^ 53" by (simp add: power_int_minus_divide)
    also have "\<dots> = 2 ^ 105 / (2 ^ 52 + 1)" by (simp add: r_def h_def field_simps)
    finally show "of_int (2 ^ 53 - 2) - 1 / 2 < r / 2 powi (- 1 - 52)"
      and "r / 2 powi (- 1 - 52) < of_int (2 ^ 53 - 2) + 1 / 2"
      by simp_all
  qed
  then have nr: "nearest r = 1 - h" by (simp add: power_int_minus_divide h_def field_simps)
  have "\<bar>nearest r\<bar> \<le> dbl_max" using dbl_max_ge unfolding nr h_def
    by (rule order_trans [rotated]) simp
  then have "binary64 r = Fin (1 - h)"
    using binary64_bounded [of r] by (simp add: nr)
  then have br: "binary64 (1 / (1 + h)) = Fin (1 - h)" by (simp only: r_def)
  have "\<not> log_max \<le> - 36" using log_max_pos by simp
  then have "trunc_exp binary64 (Fin (- 36)) = Fin t"
    using be by (simp add: trunc_exp_def e_def)
  moreover have "1 + h \<noteq> 0" using h by simp
  ultimately have "fn binary64 (Fin 36) = Fin (1 - h)" by (simp add: fn_def bs br)
  then show ?thesis by (simp only: h_def)
qed

lemma fn_binary64_seventeen: "fn binary64 (Fin 17) = Fin (1 - 372892425 / 2 ^ 53)"
proof -
  define e where "e = exp (- 17 :: real)"
  define t where "t = nearest e"
  define h :: real where "h = 1 / 2 ^ 52"
  have h: "0 < h" by (simp add: h_def)
  have e: "0 < e" by (simp add: e_def)
  have lo: "1864462196 / 10 * h \<le> e" and hi: "e \<le> 1864462197 / 10 * h"
    using exp_minus_seventeen(1,2) by (simp_all add: e_def h_def)
  have "e < 2 ^ 1024 - 2 ^ 970" using hi by (simp add: h_def)
  then have be: "binary64 e = Fin t" unfolding t_def by (rule binary64_finite [OF e])
  have "(2::real) powi (- 1022) \<le> 2 powi (- 52)" by (intro power_int_increasing) simp_all
  also have "\<dots> = h" by (simp add: h_def power_int_minus_divide)
  finally have "2 powi (- 1022) \<le> e" using lo h by linarith
  then have "\<bar>t - e\<bar> \<le> e / 2 ^ 53" unfolding t_def by (rule nearest_error_normal)
  moreover have "e / 2 ^ 53 \<le> 1864462197 / 10 * h / 2 ^ 53"
    using hi by (intro divide_right_mono) simp_all
  moreover have "1864462197 / 10 * h / 2 ^ 53 \<le> h / 100" using h by simp
  ultimately have tb: "186446219 * h + 1 / 2 * h < t" "t < 186446220 * h + 1 / 2 * h"
    using lo hi h by linarith+
  \<comment> \<open>the sum\<close>
  define s where "s = 1 + t"
  have sb: "(2 ^ 52 + 186446219 + 1 / 2) * h < s" "s < (2 ^ 52 + 186446220 + 1 / 2) * h"
    using tb by (simp_all add: s_def h_def algebra_simps)
  have "nearest s = of_int (2 ^ 52 + 186446220) * 2 powi (0 - 52)"
  proof (rule nearest_in_binade)
    show "2 powi 0 \<le> s" using sb(1) by (simp add: h_def)
    show "s < 2 powi (0 + 1)" using sb(2) by (simp add: h_def)
    show "- 1022 \<le> (0::int)" by simp
    have "s / 2 powi (0 - 52) = s / h" by (simp add: power_int_minus_divide h_def)
    moreover have "2 ^ 52 + 186446219 + 1 / 2 < s / h" "s / h < 2 ^ 52 + 186446220 + 1 / 2"
      using sb h by (simp_all add: pos_less_divide_eq pos_divide_less_eq)
    ultimately show "of_int (2 ^ 52 + 186446220) - 1 / 2 < s / 2 powi (0 - 52)"
      and "s / 2 powi (0 - 52) < of_int (2 ^ 52 + 186446220) + 1 / 2"
      by simp_all
  qed
  then have ns: "nearest s = 1 + 186446220 * h" by (simp add: power_int_minus_divide h_def field_simps)
  have "\<bar>nearest s\<bar> \<le> dbl_max" using dbl_max_ge unfolding ns h_def
    by (rule order_trans [rotated]) simp
  then have "binary64 s = Fin (1 + 186446220 * h)"
    using binary64_bounded [of s] by (simp add: ns)
  then have bs: "binary64 (1 + t) = Fin (1 + 186446220 * h)" by (simp only: s_def)
  \<comment> \<open>the reciprocal\<close>
  define r where "r = 1 / (1 + 186446220 * h)"
  have "nearest r = of_int 9007198881848567 * 2 powi (- 1 - 52)"
  proof (rule nearest_in_binade)
    show "2 powi (- 1) \<le> r" by (simp add: r_def h_def power_int_minus_divide)
    show "r < 2 powi (- 1 + 1)" by (simp add: r_def h_def)
    show "- 1022 \<le> (- 1 :: int)" by simp
    have "r / 2 powi (- 1 - 52) = r * 2 ^ 53" by (simp add: power_int_minus_divide)
    also have "\<dots> = 2 ^ 105 / (2 ^ 52 + 186446220)" by (simp add: r_def h_def field_simps)
    finally show "of_int 9007198881848567 - 1 / 2 < r / 2 powi (- 1 - 52)"
      and "r / 2 powi (- 1 - 52) < of_int 9007198881848567 + 1 / 2"
      by simp_all
  qed
  then have nr: "nearest r = 1 - 372892425 / 2 ^ 53" by (simp add: power_int_minus_divide)
  have "\<bar>nearest r\<bar> \<le> dbl_max" using dbl_max_ge unfolding nr
    by (rule order_trans [rotated]) simp
  then have "binary64 r = Fin (1 - 372892425 / 2 ^ 53)"
    using binary64_bounded [of r] by (simp add: nr)
  then have br: "binary64 (1 / (1 + 186446220 * h)) = Fin (1 - 372892425 / 2 ^ 53)"
    by (simp only: r_def)
  have "\<not> log_max \<le> - 17" using log_max_pos by simp
  then have "trunc_exp binary64 (Fin (- 17)) = Fin t"
    using be by (simp add: trunc_exp_def e_def)
  moreover have "1 + 186446220 * h \<noteq> 0" using h by simp
  ultimately show ?thesis by (simp add: fn_def bs br)
qed

lemma fn_binary64_relative:
  assumes "- log_max < x" and "x \<le> 0"
  shows "\<exists>y. fn binary64 (Fin x) = Fin y \<and> 1 / 2 ^ 1024 \<le> y \<and>
             \<bar>y - 1 / (1 + exp (- x))\<bar> \<le> 8 / 2 ^ 53 * (1 / (1 + exp (- x)))"
proof -
  define v :: real where "v = 1 / 2 ^ 53"
  define w :: real where "w = 1 / 2 ^ 1075"
  define z :: real where "z = 1 / 2 ^ 1024"
  have v: "0 < v" "v \<le> 1 / 64" and wz: "w = 4 * v * z" and z: "0 < z"
    by (simp_all add: v_def w_def z_def)
  define e where "e = exp (- x)"
  define g where "g = 1 + e"
  have e1: "1 \<le> e" using assms by (simp add: e_def)
  have e: "0 < e" by (simp add: e_def)
  have g: "0 < g" "e \<le> g" using e by (simp_all add: g_def)
  have "e < exp log_max" using assms by (simp add: e_def)
  then have "e < dbl_max" by (simp only: exp_log_max)
  moreover have "dbl_max < 2 ^ 1024 - 2 ^ 970" by (simp add: dbl_max_def)
  ultimately have esmall: "e < 2 ^ 1024 - 2 ^ 970" by linarith
  \<comment> \<open>the exponential\<close>
  define t where "t = nearest e"
  have bt: "binary64 e = Fin t" unfolding t_def by (rule binary64_finite [OF e esmall])
  have t0: "0 \<le> t" unfolding t_def by (rule nearest_nonneg [OF e])
  have t1: "t \<le> dbl_max" unfolding t_def by (rule nearest_le_max [OF e esmall])
  have "(2::real) powi (- 1022) \<le> 2 powi 0" by (intro power_int_increasing) simp_all
  then have tiny: "(2::real) powi (- 1022) \<le> 1" by simp
  then have "2 powi (- 1022) \<le> e" using e1 by linarith
  then have "\<bar>t - e\<bar> \<le> e / 2 ^ 53" unfolding t_def by (rule nearest_error_normal)
  then have "\<bar>t - e\<bar> \<le> e * v" by (simp add: v_def)
  moreover have "e * v \<le> g * v" using g v by (intro mult_right_mono) simp_all
  ultimately have terr: "\<bar>t - e\<bar> \<le> g * v" by linarith
  \<comment> \<open>the sum\<close>
  define u where "u = 1 + t"
  define s where "s = nearest u"
  have "g - g * v \<le> u" "u \<le> g + g * v" using terr by (simp_all add: u_def g_def)
  then have ug: "g * (1 - v) \<le> u" "u \<le> g * (1 + v)" by (simp_all add: algebra_simps)
  have u1: "1 \<le> u" and upos: "0 < u" using t0 by (simp_all add: u_def)
  have "1 + dbl_max < 2 ^ 1024 - 2 ^ 970" by (simp add: dbl_max_def)
  then have usmall: "u < 2 ^ 1024 - 2 ^ 970" using t1 by (simp add: u_def)
  have bs: "binary64 u = Fin s" unfolding s_def by (rule binary64_finite [OF upos usmall])
  have s1: "1 \<le> s" unfolding s_def by (rule nearest_ge_one [OF u1])
  have s2: "s \<le> dbl_max" unfolding s_def by (rule nearest_le_max [OF upos usmall])
  have "2 powi (- 1022) \<le> u" using tiny u1 by linarith
  then have "\<bar>s - u\<bar> \<le> u / 2 ^ 53" unfolding s_def by (rule nearest_error_normal)
  then have "\<bar>s - u\<bar> \<le> u * v" by (simp add: v_def)
  then have "u - u * v \<le> s" "s \<le> u + u * v" by linarith+
  then have su: "u * (1 - v) \<le> s" "s \<le> u * (1 + v)" by (simp_all add: algebra_simps)
  define k where "k = (1 - v) * (1 - v)"
  define j where "j = (1 + v) * (1 + v)"
  have k: "0 < k" and j: "0 < j" using v by (simp_all add: k_def j_def)
  have v1: "0 \<le> 1 - v" "0 \<le> 1 + v" using v by simp_all
  have "g * (1 - v) * (1 - v) \<le> u * (1 - v)" using ug v1 by (intro mult_right_mono)
  then have sk: "g * k \<le> s" using su by (simp add: k_def)
  have "u * (1 + v) \<le> g * (1 + v) * (1 + v)" using ug v1 by (intro mult_right_mono)
  then have sj: "s \<le> g * j" using su by (simp add: j_def)
  \<comment> \<open>the reciprocal\<close>
  define r where "r = 1 / s"
  define y where "y = nearest r"
  have r0: "0 < r" and r1: "r \<le> 1" using s1 by (simp_all add: r_def)
  have "r < 2 ^ 1024 - 2 ^ 970" using r1 by simp
  then have ry: "binary64 r = Fin y" unfolding y_def by (rule binary64_finite [OF r0])
  have "z \<le> 1 / dbl_max"
    unfolding z_def using dbl_max_lt dbl_max_pos by (intro divide_left_mono) simp_all
  also have "\<dots> \<le> r" unfolding r_def using s1 s2 by (intro divide_left_mono) simp_all
  finally have rz: "z \<le> r" .
  then have "nearest z \<le> nearest r" using z by (intro nearest_mono)
  then have yz: "z \<le> y" using nearest_two_powi_1024 by (simp add: y_def z_def)
  have "\<bar>y - r\<bar> \<le> r / 2 ^ 53 + 1 / 2 ^ 1075" unfolding y_def by (rule nearest_error_any [OF r0])
  then have "\<bar>y - r\<bar> \<le> r * v + w" by (simp add: v_def w_def)
  moreover have "4 * v * z \<le> 4 * v * r" using v rz by (intro mult_left_mono) simp_all
  ultimately have yerr: "\<bar>y - r\<bar> \<le> r * (5 * v)" unfolding wz by (simp add: algebra_simps)
  have ypos: "0 < y" using yz z by linarith
  have "\<bar>y * s - 1\<bar> \<le> 5 * v"
  proof -
    have "y * s - 1 = (y - r) * s" using s1 by (simp add: r_def algebra_simps)
    then have "\<bar>y * s - 1\<bar> = \<bar>y - r\<bar> * s" using s1 by (simp add: abs_mult)
    also have "\<dots> \<le> r * (5 * v) * s" using yerr s1 by (intro mult_right_mono) simp_all
    also have "\<dots> = 5 * v" using s1 by (simp add: r_def)
    finally show ?thesis .
  qed
  then have ys: "1 - 5 * v \<le> y * s" "y * s \<le> 1 + 5 * v" by linarith+
  \<comment> \<open>against the exact value\<close>
  have "y * (g * k) \<le> y * s" using sk ypos by (intro mult_left_mono) simp_all
  then have "y * g * k \<le> 1 + 5 * v" using ys by (simp add: mult.assoc)
  moreover have "1 + 5 * v \<le> (1 + 8 * v) * k"
  proof -
    have "(1 + 8 * v) * k - (1 + 5 * v) = v * (1 - 15 * v + 8 * (v * v))"
      by (simp add: k_def algebra_simps)
    moreover have "0 \<le> v * (1 - 15 * v + 8 * (v * v))"
      using v by (intro mult_nonneg_nonneg add_nonneg_nonneg) simp_all
    ultimately show ?thesis by linarith
  qed
  ultimately have "y * g * k \<le> (1 + 8 * v) * k" by linarith
  then have up: "y * g \<le> 1 + 8 * v" using k by simp
  have "y * s \<le> y * (g * j)" using sj ypos by (intro mult_left_mono) simp_all
  then have "1 - 5 * v \<le> y * g * j" using ys by (simp add: mult.assoc)
  moreover have "(1 - 8 * v) * j \<le> 1 - 5 * v"
  proof -
    have "(1 - 5 * v) - (1 - 8 * v) * j = v * (1 + 15 * v + 8 * (v * v))"
      by (simp add: j_def algebra_simps)
    moreover have "0 \<le> v * (1 + 15 * v + 8 * (v * v))"
      using v by (intro mult_nonneg_nonneg add_nonneg_nonneg) simp_all
    ultimately show ?thesis by linarith
  qed
  ultimately have "(1 - 8 * v) * j \<le> y * g * j" by linarith
  then have low: "1 - 8 * v \<le> y * g" using j by simp
  have "\<bar>y * g - 1\<bar> \<le> 8 * v" using up low by linarith
  then have "\<bar>y * g - 1\<bar> / g \<le> 8 * v / g" using g by (intro divide_right_mono) simp_all
  moreover have "\<bar>y * g - 1\<bar> / g = \<bar>y - 1 / g\<bar>"
  proof -
    have "(y * g - 1) / g = y - 1 / g" using g by (simp add: field_simps)
    then have "\<bar>y - 1 / g\<bar> = \<bar>(y * g - 1) / g\<bar>" by simp
    also have "\<dots> = \<bar>y * g - 1\<bar> / g" using g by (simp add: abs_divide)
    finally show ?thesis by simp
  qed
  ultimately have "\<bar>y - 1 / g\<bar> \<le> 8 * v * (1 / g)" by simp
  then have "\<bar>y - 1 / (1 + exp (- x))\<bar> \<le> 8 / 2 ^ 53 * (1 / (1 + exp (- x)))"
    by (simp add: g_def e_def v_def)
  moreover have "\<not> log_max \<le> - x" using assms by simp
  then have "trunc_exp binary64 (Fin (- x)) = Fin t" using bt by (simp add: trunc_exp_def e_def)
  then have "fn binary64 (Fin x) = Fin y"
    using s1 bs ry by (simp add: fn_def u_def r_def)
  ultimately show ?thesis using yz by (auto simp: z_def)
qed

lemma fn_binary64_near_one:
  assumes "0 \<le> x" and "x \<le> 31"
  shows "\<exists>y. fn binary64 (Fin x) = Fin y \<and> \<bar>y - 1 / (1 + exp (- x))\<bar> \<le> 3 / 2 ^ 54"
proof -
  define v :: real where "v = 1 / 2 ^ 53"
  have v: "0 < v" by (simp add: v_def)
  define e where "e = exp (- x)"
  define g where "g = 1 + e"
  have e: "0 < e" and e1: "e \<le> 1" using assms by (simp_all add: e_def)
  have g: "0 < g" using e by (simp add: g_def)
  have big: "2 \<le> dbl_max" using dbl_max_ge by (rule order_trans [rotated]) simp
  \<comment> \<open>the exponential\<close>
  define t where "t = nearest e"
  have "e < 2 ^ 1024 - 2 ^ 970" using e1 by simp
  then have bt: "binary64 e = Fin t" unfolding t_def by (rule binary64_finite [OF e])
  have t0: "0 \<le> t" unfolding t_def by (rule nearest_nonneg [OF e])
  have t1: "t \<le> 1" unfolding t_def by (rule nearest_le_one [OF e e1])
  have "exp x \<le> exp 31" using assms by simp
  then have "exp x \<le> 2 ^ 46" using exp_thirty_one by linarith
  then have "1 / 2 ^ 46 \<le> 1 / exp x" by (intro divide_left_mono) simp_all
  then have "1 / 2 ^ 46 \<le> e" by (simp add: e_def exp_minus field_simps)
  moreover have "(2::real) powi (- 1022) \<le> 2 powi (- 46)" by (intro power_int_increasing) simp_all
  ultimately have "2 powi (- 1022) \<le> e" by (simp add: power_int_minus_divide)
  then have "\<bar>t - e\<bar> \<le> e / 2 ^ 53" unfolding t_def by (rule nearest_error_normal)
  then have terr: "\<bar>t - e\<bar> \<le> e * v" by (simp add: v_def)
  \<comment> \<open>the sum\<close>
  define u where "u = 1 + t"
  define s where "s = nearest u"
  have u: "1 \<le> u" "u \<le> 2" "0 < u" using t0 t1 by (simp_all add: u_def)
  have two: "nearest 2 = 2" using nearest_power_of_two [of 1] by simp
  have s1: "1 \<le> s" unfolding s_def by (rule nearest_ge_one [OF u(1)])
  have "nearest u \<le> nearest 2" using u by (intro nearest_mono)
  then have s2: "s \<le> 2" by (simp add: s_def two)
  have serr: "\<bar>s - u\<bar> \<le> v"
  proof (cases "u = 2")
    case True
    then show ?thesis using v by (simp add: s_def two)
  next
    case False
    have "\<bar>nearest u - u\<bar> \<le> 2 powi (0 - 53)"
      using u False by (intro nearest_error_binade) simp_all
    then show ?thesis by (simp add: s_def v_def power_int_minus_divide)
  qed
  have "\<bar>nearest u\<bar> \<le> dbl_max" using s1 s2 big by (simp add: s_def)
  then have bs: "binary64 u = Fin s" unfolding s_def by (rule binary64_bounded)
  \<comment> \<open>the reciprocal\<close>
  define r where "r = 1 / s"
  define y where "y = nearest r"
  have r: "1 / 2 \<le> r" "r \<le> 1" "0 < r" using s1 s2 by (simp_all add: r_def field_simps)
  have yerr: "\<bar>y - r\<bar> \<le> v / 2"
  proof (cases "r = 1")
    case True
    then show ?thesis using v by (simp add: y_def nearest_one)
  next
    case False
    have "\<bar>nearest r - r\<bar> \<le> 2 powi (- 1 - 53)"
      using r False by (intro nearest_error_binade) (simp_all add: power_int_minus_divide)
    then show ?thesis by (simp add: y_def v_def power_int_minus_divide)
  qed
  have "r < 2 ^ 1024 - 2 ^ 970" using r by simp
  then have ry: "binary64 r = Fin y" unfolding y_def by (rule binary64_finite [OF r(3)])
  \<comment> \<open>against the exact value\<close>
  have "\<bar>s - g\<bar> \<le> v + e * v" using serr terr by (simp add: u_def g_def)
  then have "\<bar>s - g\<bar> \<le> g * v" by (simp add: g_def algebra_simps)
  then have "\<bar>s - g\<bar> / g \<le> v" using g by (simp add: pos_divide_le_eq mult.commute)
  moreover have "\<bar>1 / s - 1 / g\<bar> \<le> \<bar>s - g\<bar> / g" using s1 g by (rule reciprocal_close)
  ultimately have "\<bar>r - 1 / g\<bar> \<le> v" by (simp add: r_def)
  then have "\<bar>y - 1 / g\<bar> \<le> 3 * v / 2" using yerr by linarith
  then have "\<bar>y - 1 / (1 + exp (- x))\<bar> \<le> 3 / 2 ^ 54" by (simp add: g_def e_def v_def)
  moreover have "\<not> log_max \<le> - x" using assms log_max_pos by linarith
  then have "trunc_exp binary64 (Fin (- x)) = Fin t" using bt by (simp add: trunc_exp_def e_def)
  then have "fn binary64 (Fin x) = Fin y"
    using s1 bs ry by (simp add: fn_def u_def r_def)
  ultimately show ?thesis by blast
qed


section \<open>The inverse in double arithmetic\<close>

lemma logistic_lipschitz:
  fixes a b :: real
  shows "\<bar>1 / (1 + exp (- a)) - 1 / (1 + exp (- b))\<bar> \<le> \<bar>a - b\<bar>"
proof -
  have step: "1 / (1 + exp (- d)) - 1 / (1 + exp (- c)) \<le> d - c"
    and mono: "1 / (1 + exp (- c)) \<le> 1 / (1 + exp (- d))" if "c \<le> d" for c d :: real
  proof -
    define p where "p = exp (- c)"
    define z where "z = exp (- (d - c))"
    have p: "0 < p" and z: "0 < z" by (simp_all add: p_def z_def)
    have z1: "z \<le> 1" using that by (simp add: z_def)
    have "1 + (- (d - c)) \<le> exp (- (d - c))" by (rule exp_ge_add_one_self)
    then have "1 + (- (d - c)) \<le> z" by (simp only: z_def)
    then have zz: "1 - z \<le> d - c" by linarith
    have e: "exp (- d) = p * z" by (simp add: p_def z_def flip: exp_add)
    have "0 < 1 + p * z" "0 < 1 + p" using p z by (simp_all add: add_pos_pos)
    then have "1 + p * z \<noteq> 0" "1 + p \<noteq> 0" by simp_all
    then have "1 / (1 + p * z) - 1 / (1 + p) = p * (1 - z) / ((1 + p * z) * (1 + p))"
      by (simp add: divide_simps) (simp add: algebra_simps)
    also have "\<dots> \<le> p * (1 - z) / (1 * (1 + p))"
      using p z z1 by (intro divide_left_mono mult_right_mono mult_nonneg_nonneg mult_pos_pos)
        (simp_all add: add_pos_pos)
    also have "\<dots> = (p / (1 + p)) * (1 - z)" by simp
    also have "\<dots> \<le> 1 * (1 - z)"
      using p z1 by (intro mult_right_mono) simp_all
    finally have "1 / (1 + p * z) - 1 / (1 + p) \<le> 1 - z" by simp
    then show "1 / (1 + exp (- d)) - 1 / (1 + exp (- c)) \<le> d - c"
      using zz by (simp add: e p_def)
    have "p * z \<le> p * 1" using p z1 by (intro mult_left_mono) simp_all
    then show "1 / (1 + exp (- c)) \<le> 1 / (1 + exp (- d))"
      using p z unfolding e p_def [symmetric]
      by (intro divide_left_mono) (simp_all add: add_pos_pos mult_pos_pos)
  qed
  show ?thesis
  proof (cases "a \<le> b")
    case True
    then show ?thesis using step [OF True] mono [OF True] by linarith
  next
    case False
    then have "b \<le> a" by simp
    then show ?thesis using step [of b a] mono [of b a] by linarith
  qed
qed

lemma ln_near_one:
  fixes p :: real
  assumes "\<bar>p - 1\<bar> \<le> e" and "e \<le> 1 / 2"
  shows "\<bar>ln p\<bar> \<le> 2 * e"
proof -
  have p: "1 / 2 \<le> p" using assms by linarith
  then have pos: "0 < p" by simp
  have up: "ln p \<le> p - 1" using pos by (rule ln_le_minus_one)
  have "ln (1 / p) \<le> 1 / p - 1" using pos by (intro ln_le_minus_one) simp
  then have "1 - 1 / p \<le> ln p" using pos by (simp add: ln_div)
  moreover have "1 / p - 1 \<le> 2 * e"
  proof -
    have "1 / p - 1 = (1 - p) / p" using pos by (simp add: field_simps)
    also have "\<dots> \<le> e / p" using assms pos by (intro divide_right_mono) linarith+
    also have "\<dots> \<le> e / (1 / 2)"
    proof (rule divide_left_mono)
      show "1 / 2 \<le> p" by (rule p)
      show "0 \<le> e" using assms by linarith
      show "0 < p * (1 / 2)" using pos by simp
    qed
    finally show ?thesis by simp
  qed
  ultimately show ?thesis using up assms by linarith
qed

lemma ln_close:
  fixes a b c :: real
  assumes "0 < b" and "\<bar>a - b\<bar> \<le> c * b" and "c \<le> 1 / 2"
  shows "0 < a" and "\<bar>ln a - ln b\<bar> \<le> c + 2 * (c * c)"
proof -
  have "0 \<le> c * b" using assms(2) by linarith
  then have c0: "0 \<le> c" using assms(1) by (simp add: zero_le_mult_iff)
  have "c * b \<le> 1 / 2 * b" using assms by (intro mult_right_mono) simp_all
  then show a: "0 < a" using assms by linarith
  define p where "p = a / b"
  have p: "0 < p" using a assms by (simp add: p_def)
  have "p - 1 = (a - b) / b" using assms by (simp add: p_def field_simps)
  then have "\<bar>p - 1\<bar> = \<bar>a - b\<bar> / b" using assms by (simp add: abs_divide)
  also have "\<dots> \<le> c" using assms by (simp add: pos_divide_le_eq)
  finally have pc: "1 - c \<le> p" "p \<le> 1 + c" by linarith+
  have "ln p \<le> p - 1" using p by (rule ln_le_minus_one)
  then have up: "ln p \<le> c" using pc by linarith
  have "ln (1 / p) \<le> 1 / p - 1" using p by (intro ln_le_minus_one) simp
  then have "- ln p \<le> 1 / p - 1" using p by (simp add: ln_div)
  moreover have "1 / p \<le> 1 + c + 2 * (c * c)"
  proof -
    have "c * c * (2 * c) \<le> c * c * 1" using assms c0 by (intro mult_left_mono) simp_all
    moreover have "(1 + c + 2 * (c * c)) * (1 - c) = 1 + c * c - c * c * (2 * c)"
      by (simp add: algebra_simps)
    ultimately have "1 \<le> (1 + c + 2 * (c * c)) * (1 - c)" using c0 by simp
    also have "\<dots> \<le> (1 + c + 2 * (c * c)) * p"
      using pc c0 by (intro mult_left_mono add_nonneg_nonneg mult_nonneg_nonneg) simp_all
    finally show ?thesis using p by (simp add: pos_divide_le_eq)
  qed
  moreover have "0 \<le> c * c" by simp
  ultimately have "\<bar>ln p\<bar> \<le> c + 2 * (c * c)" using up by linarith
  then show "\<bar>ln a - ln b\<bar> \<le> c + 2 * (c * c)" using a assms by (simp add: p_def ln_div)
qed

lemma ln_bound_ten:
  fixes p :: real
  assumes "1 / 1000 \<le> p" and "p \<le> 1000"
  shows "\<bar>ln p\<bar> \<le> 10"
proof -
  have "1 + 1 \<le> exp (1::real)" by (rule exp_ge_add_one_self)
  then have "(2::real) ^ 10 \<le> exp 1 ^ 10" by (intro power_mono) simp_all
  also have "\<dots> = exp (10::real)" by (simp flip: exp_of_nat_mult)
  finally have e: "1000 \<le> exp (10::real)" by simp
  have pos: "0 < p" using assms by simp
  have "p \<le> exp 10" using assms e by linarith
  then have "ln p \<le> ln (exp 10)" using pos by (subst ln_le_cancel_iff) simp_all
  then have up: "ln p \<le> 10" by simp
  have "1 / p \<le> 1000" using assms pos by (simp add: field_simps)
  then have "1 / p \<le> exp 10" using e by linarith
  then have "ln (1 / p) \<le> ln (exp 10)" using pos by (subst ln_le_cancel_iff) simp_all
  then have "- 10 \<le> ln p" using pos by (simp add: ln_div)
  then show ?thesis using up by linarith
qed

lemma inv_fn_binary64_close:
  assumes "1 / 1000 \<le> y" and "y \<le> 999 / 1000"
  shows "\<exists>l. inv_fn binary64 (Fin y) = Fin l \<and> \<bar>l - ln (y / (1 - y))\<bar> \<le> 20 / 2 ^ 53"
proof -
  define u :: real where "u = 1 / 2 ^ 53"
  define w :: real where "w = 1 / 2 ^ 1075"
  have u: "0 < u" "u \<le> 1 / 8" and w: "0 < w" "w \<le> u" by (simp_all add: u_def w_def)
  define a where "a = 1 - y"
  have a: "1 / 1000 \<le> a" "a \<le> 999 / 1000" and y: "0 < y" using assms by (simp_all add: a_def)
  have apos: "0 < a" using a by simp
  have tiny: "(2::real) powi (- 1022) \<le> 1 / 2000"
  proof -
    have "(2::real) powi (- 1022) \<le> 2 powi (- 11)" by (intro power_int_increasing) simp_all
    also have "\<dots> \<le> 1 / 2000" by (simp add: power_int_minus_divide)
    finally show ?thesis .
  qed
  \<comment> \<open>the difference \<open>1 - y\<close>\<close>
  define d where "d = nearest a"
  have "\<bar>d - a\<bar> \<le> a / 2 ^ 53"
    unfolding d_def using tiny a by (intro nearest_error_normal) linarith
  then have derr: "\<bar>d - a\<bar> \<le> a * u" by (simp add: u_def)
  have au: "a * u \<le> a * (1 / 8)" using u apos by (intro mult_left_mono) simp_all
  have "a - a * u \<le> d" "d \<le> a + a * u" using derr by linarith+
  then have d: "a * (1 - u) \<le> d" "d \<le> a * (1 + u)" by (simp_all add: algebra_simps)
  have dpos: "0 < d" and dlo: "1 / 2000 \<le> d" and dhi: "d \<le> 2"
    using \<open>a - a * u \<le> d\<close> \<open>d \<le> a + a * u\<close> au a by linarith+
  have bd: "binary64 a = Fin d"
    unfolding d_def using apos a by (intro binary64_finite) simp_all
  \<comment> \<open>the quotient \<open>y / (1 - y)\<close>\<close>
  define r where "r = y / d"
  define q where "q = nearest r"
  have rlo: "1 / 2000 \<le> r"
  proof -
    have "1 / 2000 * d \<le> 1 / 2000 * 2" using dhi by (intro mult_left_mono) simp_all
    then have "1 / 2000 * d \<le> y" using assms by linarith
    then show ?thesis unfolding r_def using dpos by (simp add: pos_le_divide_eq)
  qed
  have rhi: "r \<le> 2000"
  proof -
    have "y \<le> 2000 * (1 / 2000)" using assms by simp
    also have "\<dots> \<le> 2000 * d" using dlo by (intro mult_left_mono) simp_all
    finally show ?thesis unfolding r_def using dpos by (simp add: pos_divide_le_eq)
  qed
  have rpos: "0 < r" using rlo by linarith
  have "\<bar>q - r\<bar> \<le> r / 2 ^ 53"
    unfolding q_def using tiny rlo by (intro nearest_error_normal) linarith
  then have qerr: "\<bar>q - r\<bar> \<le> r * u" by (simp add: u_def)
  have "r * u \<le> r * (1 / 8)" using u rpos by (intro mult_left_mono) simp_all
  then have qpos: "0 < q" using qerr rpos by linarith
  have bq: "binary64 (y / d) = Fin q"
    unfolding q_def r_def [symmetric] using rpos rhi by (intro binary64_finite) simp_all
  \<comment> \<open>the quotient against the exact odds\<close>
  define p where "p = q * a / y"
  have ppos: "0 < p" using qpos apos y by (simp add: p_def)
  have q_eq: "q = y / a * p" using apos y by (simp add: p_def)
  have "\<bar>q * d - y\<bar> \<le> y * u"
  proof -
    have "q * d - y = (q - r) * d" using dpos by (simp add: r_def algebra_simps)
    then have "\<bar>q * d - y\<bar> = \<bar>q - r\<bar> * d" using dpos by (simp add: abs_mult)
    also have "\<dots> \<le> r * u * d" using qerr dpos by (intro mult_right_mono) simp_all
    also have "\<dots> = y * u" using dpos by (simp add: r_def)
    finally show ?thesis .
  qed
  then have "y - y * u \<le> q * d" "q * d \<le> y + y * u" by linarith+
  then have qd: "y * (1 - u) \<le> q * d" "q * d \<le> y * (1 + u)" by (simp_all add: algebra_simps)
  have "q * (a * (1 - u)) \<le> q * d" using d qpos by (intro mult_left_mono) simp_all
  then have "q * a * (1 - u) \<le> y * (1 + u)" using qd by (simp add: mult.assoc)
  then have "p * (1 - u) \<le> 1 + u" using y by (simp add: p_def field_simps)
  moreover have "1 + u \<le> (1 + 4 * u) * (1 - u)"
  proof -
    have "u * u \<le> u * (1 / 8)" using u by (intro mult_left_mono) simp_all
    moreover have "(1 + 4 * u) * (1 - u) = 1 + 3 * u - 4 * (u * u)" by (simp add: algebra_simps)
    ultimately show ?thesis using u by linarith
  qed
  ultimately have "p * (1 - u) \<le> (1 + 4 * u) * (1 - u)" by linarith
  then have pup: "p \<le> 1 + 4 * u" using u by simp
  have "q * d \<le> q * (a * (1 + u))" using d qpos by (intro mult_left_mono) simp_all
  then have "y * (1 - u) \<le> q * a * (1 + u)" using qd by (simp add: mult.assoc)
  then have "1 - u \<le> p * (1 + u)" using y by (simp add: p_def field_simps)
  moreover have "(1 - 4 * u) * (1 + u) \<le> 1 - u"
  proof -
    have "0 \<le> u * u" by simp
    moreover have "(1 - 4 * u) * (1 + u) = 1 - 3 * u - 4 * (u * u)" by (simp add: algebra_simps)
    ultimately show ?thesis using u by linarith
  qed
  ultimately have "(1 - 4 * u) * (1 + u) \<le> p * (1 + u)" by linarith
  then have plo: "1 - 4 * u \<le> p" using u by simp
  have "\<bar>ln p\<bar> \<le> 2 * (4 * u)" using pup plo u by (intro ln_near_one) (simp_all add: abs_le_iff)
  then have lnp: "\<bar>ln p\<bar> \<le> 8 * u" by simp
  have "0 < y / a" using apos y by simp
  then have "ln (y / a * p) = ln (y / a) + ln p" using ppos by (intro ln_mult_pos)
  then have ln_q: "ln q = ln (y / a) + ln p" by (simp only: q_eq)
  have "1 / 1000 \<le> y / a"
  proof -
    have "1 / 1000 * a \<le> 1 / 1000 * 1" using a by (intro mult_left_mono) simp_all
    then have "1 / 1000 * a \<le> y" using assms by linarith
    then show ?thesis using apos by (simp add: pos_le_divide_eq)
  qed
  moreover have "y / a \<le> 1000"
  proof -
    have "y \<le> 1000 * (1 / 1000)" using assms by simp
    also have "\<dots> \<le> 1000 * a" using a by (intro mult_left_mono) simp_all
    finally show ?thesis using apos by (simp add: pos_divide_le_eq)
  qed
  ultimately have "\<bar>ln (y / a)\<bar> \<le> 10" by (rule ln_bound_ten)
  then have lnq: "\<bar>ln q\<bar> \<le> 11" using lnp ln_q u by linarith
  \<comment> \<open>the logarithm\<close>
  define l where "l = nearest (ln q)"
  have "\<bar>l - ln q\<bar> \<le> \<bar>ln q\<bar> / 2 ^ 53 + 1 / 2 ^ 1075"
    unfolding l_def by (rule nearest_error_signed)
  moreover have "\<bar>ln q\<bar> / 2 ^ 53 \<le> 11 / 2 ^ 53" using lnq by (intro divide_right_mono) simp_all
  ultimately have lerr: "\<bar>l - ln q\<bar> \<le> 11 * u + w" by (simp add: u_def w_def)
  then have "\<bar>l\<bar> \<le> 13" using lnq u w by linarith
  moreover have "13 \<le> dbl_max" using dbl_max_ge by (rule order_trans [rotated]) simp
  ultimately have "\<bar>nearest (ln q)\<bar> \<le> dbl_max" unfolding l_def by linarith
  then have bl: "binary64 (ln q) = Fin l" unfolding l_def by (rule binary64_bounded)
  have "\<bar>l - ln (y / a)\<bar> \<le> 20 * u" using lerr lnp ln_q w by linarith
  then have "\<bar>l - ln (y / (1 - y))\<bar> \<le> 20 / 2 ^ 53" by (simp add: u_def a_def)
  moreover have "inv_fn binary64 (Fin y) = Fin l"
    using bd bq bl dpos qpos by (simp add: inv_fn_def dsub_def trunc_log_def a_def)
  ultimately show ?thesis by blast
qed

lemma logistic_of_logit:
  fixes y :: real
  assumes "0 < y" and "y < 1"
  shows "1 / (1 + exp (- ln (y / (1 - y)))) = y"
  using assms by (simp add: exp_minus field_simps)

lemma fn_inv_binary64_close:
  assumes "1 / 1000 \<le> y" and "y \<le> 999 / 1000"
  shows "\<exists>r. fn binary64 (inv_fn binary64 (Fin y)) = Fin r \<and> \<bar>r - y\<bar> \<le> 1 / 2 ^ 48"
proof -
  obtain l where l: "inv_fn binary64 (Fin y) = Fin l"
    and lerr: "\<bar>l - ln (y / (1 - y))\<bar> \<le> 20 / 2 ^ 53"
    using inv_fn_binary64_close [OF assms] by blast
  obtain r where r: "fn binary64 (Fin l) = Fin r"
    and rerr: "\<bar>r - 1 / (1 + exp (- l))\<bar> \<le> 1 / 2 ^ 51"
    using fn_binary64_value [of l] by blast
  have "\<bar>1 / (1 + exp (- l)) - 1 / (1 + exp (- ln (y / (1 - y))))\<bar> \<le> \<bar>l - ln (y / (1 - y))\<bar>"
    by (rule logistic_lipschitz)
  moreover have "1 / (1 + exp (- ln (y / (1 - y)))) = y"
    using assms by (intro logistic_of_logit) simp_all
  ultimately have "\<bar>1 / (1 + exp (- l)) - y\<bar> \<le> 20 / 2 ^ 53" using lerr by simp
  moreover have "(1::real) / 2 ^ 51 + 20 / 2 ^ 53 \<le> 1 / 2 ^ 48" by simp
  ultimately have "\<bar>r - y\<bar> \<le> 1 / 2 ^ 48" using rerr by linarith
  then show ?thesis using l r by simp
qed

lemma inv_fn_binary64_half: "inv_fn binary64 (Fin (1 / 2)) = Fin 0"
  by (simp add: inv_fn_def dsub_def trunc_log_def binary64_half binary64_one binary64_zero)

lemma inv_fn_binary64_truncated:
  "inv_fn binary64 (Fin (1 / 2 ^ 1024)) = Fin (nearest (ln (1 / 2 ^ 1024)))"
  "nearest (ln (1 / 2 ^ 1024)) < - 511" "- 1025 < nearest (ln (1 / 2 ^ 1024))"
proof -
  define z :: real where "z = 1 / 2 ^ 1024"
  define v :: real where "v = ln z"
  have "v = ln (inverse (2 ^ 1024))" by (simp only: v_def z_def inverse_eq_divide)
  also have "\<dots> = - ln (2 ^ 1024)" by (rule ln_inverse)
  also have "ln ((2::real) ^ 1024) = 1024 * ln 2" by (subst ln_realpow) simp_all
  finally have v: "v = - (1024 * ln 2)" .
  have "1024 * ln (2::real) < 1024 * 1"
    using ln_2_less_1 by (intro mult_strict_left_mono) simp_all
  moreover have "1 / 2 \<le> ln (2::real)"
  proof -
    have "exp (1 / 2 :: real) \<le> 1 + 1 / 2 + (1 / 2)\<^sup>2" by (intro exp_bound) simp_all
    then have "exp (1 / 2 :: real) \<le> 2" by (simp add: power2_eq_square)
    then have "ln (exp (1 / 2 :: real)) \<le> ln 2" by (subst ln_le_cancel_iff) simp_all
    then show ?thesis by simp
  qed
  ultimately have vb: "- 1024 < v" "v \<le> - 512" unfolding v by linarith+
  have "\<bar>nearest v - v\<bar> \<le> \<bar>v\<bar> / 2 ^ 53 + 1 / 2 ^ 1075" by (rule nearest_error_signed)
  moreover have "\<bar>v\<bar> / 2 ^ 53 \<le> 1024 / 2 ^ 53" using vb by (intro divide_right_mono) simp_all
  moreover have "(1024::real) / 2 ^ 53 + 1 / 2 ^ 1075 < 1 / 2" by simp
  ultimately have n: "nearest v < - 511" "- 1025 < nearest v" using vb by linarith+
  have big: "1025 \<le> dbl_max" using dbl_max_ge by (rule order_trans [rotated]) simp
  then have "\<bar>nearest v\<bar> \<le> dbl_max" using n by linarith
  then have b: "binary64 v = Fin (nearest v)" by (rule binary64_bounded)
  have "nearest (1 + - z) = 1" using nearest_below_one by (simp add: z_def)
  moreover from this have "\<bar>nearest (1 + - z)\<bar> \<le> dbl_max" using big by simp
  ultimately have one: "binary64 (1 + - z) = Fin 1" using binary64_bounded [of "1 + - z"] by simp
  have zpos: "0 < z" by (simp add: z_def)
  have nz: "nearest z = z" unfolding z_def by (rule nearest_two_powi_1024)
  have "z \<le> 1" by (simp add: z_def)
  then have "\<bar>nearest z\<bar> \<le> dbl_max" using zpos big by (simp add: nz)
  then have q: "binary64 z = Fin z" using binary64_bounded [of z] by (simp add: nz)
  have "inv_fn binary64 (Fin z) = Fin (nearest v)"
    using one q b zpos by (simp add: inv_fn_def dsub_def trunc_log_def v_def)
  then show "inv_fn binary64 (Fin (1 / 2 ^ 1024)) = Fin (nearest (ln (1 / 2 ^ 1024)))"
    by (simp only: v_def z_def)
  show "nearest (ln (1 / 2 ^ 1024)) < - 511" "- 1025 < nearest (ln (1 / 2 ^ 1024))"
    using n by (simp_all only: v_def z_def)
qed


lemma inv_fn_binary64_truncated_close:
  "\<bar>nearest (ln (1 / 2 ^ 1024)) - (- log_max)\<bar> \<le> 1 / 2 ^ 42"
proof -
  define v :: real where "v = ln (1 / 2 ^ 1024)"
  define p :: real where "p = 1 - 1 / 2 ^ 53"
  have "v = ln (inverse (2 ^ 1024))" by (simp only: v_def inverse_eq_divide)
  also have "\<dots> = - ln (2 ^ 1024)" by (rule ln_inverse)
  finally have v: "ln (2 ^ 1024) = - v" by simp
  have "ln ((2::real) ^ 1024) = 1024 * ln 2" by (subst ln_realpow) simp_all
  moreover have "1024 * ln (2::real) < 1024 * 1"
    using ln_2_less_1 by (intro mult_strict_left_mono) simp_all
  moreover have "0 < ln (2::real)" by simp
  ultimately have vb: "- 1024 < v" "v < 0" using v by linarith+
  have "dbl_max = 2 ^ 1024 * p" by (simp add: dbl_max_def p_def algebra_simps)
  then have "log_max = ln (2 ^ 1024 * p)" by (simp only: log_max_def)
  also have "\<dots> = ln (2 ^ 1024) + ln p" by (rule ln_mult_pos) (simp_all add: p_def)
  finally have l: "log_max = - v + ln p" by (simp only: v)
  have "\<bar>ln p\<bar> \<le> 2 * (1 / 2 ^ 53)" by (rule ln_near_one) (simp_all add: p_def)
  then have "\<bar>v - (- log_max)\<bar> \<le> 2 / 2 ^ 53" using l by linarith
  moreover have "\<bar>nearest v - v\<bar> \<le> \<bar>v\<bar> / 2 ^ 53 + 1 / 2 ^ 1075" by (rule nearest_error_signed)
  moreover have "\<bar>v\<bar> / 2 ^ 53 \<le> 1024 / 2 ^ 53" using vb by (intro divide_right_mono) simp_all
  moreover have "(2::real) / 2 ^ 53 + (1024 / 2 ^ 53 + 1 / 2 ^ 1075) \<le> 1 / 2 ^ 42" by simp
  ultimately have "\<bar>nearest v - (- log_max)\<bar> \<le> 1 / 2 ^ 42" by linarith
  then show ?thesis by (simp only: v_def)
qed

lemma inv_fn_binary64_one: "inv_fn binary64 (Fin 1) = Fin log_max"
  by (simp add: inv_fn_def dsub_def trunc_log_def binary64_zero)

lemma inv_fn_binary64_below_one:
  "inv_fn binary64 (Fin (1 - 1 / 2 ^ 52)) = Fin (nearest (ln (2 ^ 52 - 1)))"
  "36 + 1 / 40 < nearest (ln (2 ^ 52 - 1))" "nearest (ln (2 ^ 52 - 1)) < 37"
proof -
  define h :: real where "h = 1 / 2 ^ 52"
  define q :: real where "q = 2 ^ 52 - 1"
  define v where "v = ln q"
  have h: "0 < h" and hp: "h = 2 powi (- 52)" by (simp_all add: h_def power_int_minus_divide)
  have q: "0 < q" by (simp add: q_def)
  have big: "64 \<le> dbl_max" using dbl_max_ge by (rule order_trans [rotated]) simp
  \<comment> \<open>the difference\<close>
  have nh: "nearest h = h" unfolding hp by (rule nearest_power_of_two) simp
  have "h \<le> 64" by (simp add: h_def)
  then have "\<bar>nearest h\<bar> \<le> dbl_max" using h big by (simp add: nh)
  then have "binary64 h = Fin h" using binary64_bounded [of h] by (simp add: nh)
  then have bd: "binary64 (1 + - (1 - h)) = Fin h" by simp
  \<comment> \<open>the quotient\<close>
  have "nearest q = of_int (2 ^ 53 - 2) * 2 powi (51 - 52)"
  proof (rule nearest_in_binade)
    show "2 powi 51 \<le> q" by (simp add: q_def)
    show "q < 2 powi (51 + 1)" by (simp add: q_def)
    show "- 1022 \<le> (51::int)" by simp
    have "q / 2 powi (51 - 52) = 2 ^ 53 - 2" by (simp add: q_def power_int_minus_divide)
    then show "of_int (2 ^ 53 - 2) - 1 / 2 < q / 2 powi (51 - 52)"
      and "q / 2 powi (51 - 52) < of_int (2 ^ 53 - 2) + 1 / 2"
      by simp_all
  qed
  then have nq: "nearest q = q" by (simp add: power_int_minus_divide q_def)
  have "q \<le> 2 ^ 1023" by (simp add: q_def)
  then have "\<bar>nearest q\<bar> \<le> dbl_max" using q dbl_max_ge by (simp add: nq)
  then have "binary64 q = Fin q" using binary64_bounded [of q] by (simp add: nq)
  moreover have "(1 - h) / h = q" by (simp add: h_def q_def field_simps)
  ultimately have bq: "binary64 ((1 - h) / h) = Fin q" by simp
  \<comment> \<open>the logarithm\<close>
  have "exp (36 + 1 / 32 :: real) = exp 36 * exp (1 / 32)" by (rule exp_add)
  also have "\<dots> \<le> (4320 * 10 ^ 12) * (1 + 1 / 32 + (1 / 32)\<^sup>2)"
    using exp_thirty_six(1) exp_bound [of "1 / 32 :: real"]
    by (intro mult_mono) simp_all
  also have "\<dots> \<le> q" by (simp add: q_def power2_eq_square)
  finally have "ln (exp (36 + 1 / 32 :: real)) \<le> ln q" using q by (subst ln_le_cancel_iff) simp_all
  then have vlo: "36 + 1 / 32 \<le> v" by (simp add: v_def)
  have "1 + 1 / 2 \<le> exp (1 / 2 :: real)" by (rule exp_ge_add_one_self)
  then have "(4300 * 10 ^ 12) * (1 + 1 / 2) \<le> exp (36::real) * exp (1 / 2)"
    using exp_thirty_six(2) by (intro mult_mono) simp_all
  also have "\<dots> = exp (36 + 1 / 2 :: real)" by (rule exp_add [symmetric])
  finally have "q \<le> exp (36 + 1 / 2 :: real)" by (simp add: q_def)
  then have "ln q \<le> ln (exp (36 + 1 / 2 :: real))" using q by (subst ln_le_cancel_iff) simp_all
  then have vhi: "v \<le> 36 + 1 / 2" by (simp add: v_def)
  have "\<bar>nearest v - v\<bar> \<le> \<bar>v\<bar> / 2 ^ 53 + 1 / 2 ^ 1075" by (rule nearest_error_signed)
  moreover have "\<bar>v\<bar> / 2 ^ 53 \<le> 37 / 2 ^ 53" using vlo vhi by (intro divide_right_mono) simp_all
  moreover have "(37::real) / 2 ^ 53 + 1 / 2 ^ 1075 < 1 / 1000" by simp
  ultimately have n: "36 + 1 / 40 < nearest v" "nearest v < 37" using vlo vhi by linarith+
  then have "\<bar>nearest v\<bar> \<le> dbl_max" using big by linarith
  then have bl: "binary64 v = Fin (nearest v)" by (rule binary64_bounded)
  have "inv_fn binary64 (Fin (1 - h)) = Fin (nearest v)"
    using bd bq bl h q by (simp add: inv_fn_def dsub_def trunc_log_def v_def)
  then show "inv_fn binary64 (Fin (1 - 1 / 2 ^ 52)) = Fin (nearest (ln (2 ^ 52 - 1)))"
    by (simp only: v_def q_def h_def)
  show "36 + 1 / 40 < nearest (ln (2 ^ 52 - 1))"
    using n(1) by (simp only: v_def q_def)
  show "nearest (ln (2 ^ 52 - 1)) < 37"
    using n(2) by (simp only: v_def q_def)
qed

lemma inv_fn_binary64_seventeen:
  "inv_fn binary64 (Fin (1 - 372892425 / 2 ^ 53))
     = Fin (nearest (ln (6484045738209110 / 2 ^ 28)))"
  "nearest (ln (6484045738209110 / 2 ^ 28)) < 17 - 1 / 10 ^ 9"
  "0 < nearest (ln (6484045738209110 / 2 ^ 28))"
proof -
  define y :: real where "y = 1 - 372892425 / 2 ^ 53"
  define a :: real where "a = 372892425 / 2 ^ 53"
  define q :: real where "q = 6484045738209110 / 2 ^ 28"
  define v where "v = ln q"
  have q: "0 < q" "1 \<le> q" by (simp_all add: q_def)
  have big: "64 \<le> dbl_max" using dbl_max_ge by (rule order_trans [rotated]) simp
  \<comment> \<open>the difference\<close>
  have "nearest a = of_int (372892425 * 2 ^ 24) * 2 powi (- 25 - 52)"
  proof (rule nearest_in_binade)
    show "2 powi (- 25) \<le> a" by (simp add: a_def power_int_minus_divide)
    show "a < 2 powi (- 25 + 1)" by (simp add: a_def power_int_minus_divide)
    show "- 1022 \<le> (- 25 :: int)" by simp
    have "a / 2 powi (- 25 - 52) = 372892425 * 2 ^ 24" by (simp add: a_def power_int_minus_divide)
    then show "of_int (372892425 * 2 ^ 24) - 1 / 2 < a / 2 powi (- 25 - 52)"
      and "a / 2 powi (- 25 - 52) < of_int (372892425 * 2 ^ 24) + 1 / 2"
      by simp_all
  qed
  then have na: "nearest a = a" by (simp add: power_int_minus_divide a_def)
  have "0 < a" "a \<le> 64" by (simp_all add: a_def)
  then have "\<bar>nearest a\<bar> \<le> dbl_max" using big by (simp add: na)
  then have "binary64 a = Fin a" using binary64_bounded [of a] by (simp add: na)
  moreover have "1 + - y = a" by (simp add: y_def a_def)
  ultimately have bd: "binary64 (1 + - y) = Fin a" by simp
  \<comment> \<open>the quotient\<close>
  define r where "r = y / a"
  have r: "r = 9007198881848567 / 372892425" by (simp add: r_def y_def a_def)
  have "nearest r = of_int 6484045738209110 * 2 powi (24 - 52)"
  proof (rule nearest_in_binade)
    show "2 powi 24 \<le> r" by (simp add: r)
    show "r < 2 powi (24 + 1)" by (simp add: r)
    show "- 1022 \<le> (24::int)" by simp
    have "r / 2 powi (24 - 52) = 9007198881848567 * 2 ^ 28 / 372892425"
      by (simp add: r power_int_minus_divide)
    then show "of_int 6484045738209110 - 1 / 2 < r / 2 powi (24 - 52)"
      and "r / 2 powi (24 - 52) < of_int 6484045738209110 + 1 / 2"
      by simp_all
  qed
  then have nr: "nearest r = q" by (simp add: power_int_minus_divide q_def)
  have "q \<le> 2 ^ 1023" by (simp add: q_def)
  then have "\<bar>nearest r\<bar> \<le> dbl_max" using q dbl_max_ge by (simp add: nr)
  then have "binary64 r = Fin q" using binary64_bounded [of r] by (simp add: nr)
  then have bq: "binary64 (y / a) = Fin q" by (simp only: r_def)
  \<comment> \<open>the logarithm\<close>
  have "q * exp (- 17) \<le> 1 - 2 / 10 ^ 9"
    using exp_minus_seventeen(3) q by (simp add: q_def pos_le_divide_eq mult.commute)
  also have "\<dots> \<le> exp (- (2 / 10 ^ 9))"
    using exp_ge_add_one_self [of "- (2 / 10 ^ 9) :: real"] by simp
  finally have "q \<le> exp (- (2 / 10 ^ 9)) * exp 17"
    by (simp add: exp_minus field_simps)
  also have "\<dots> = exp (17 - 2 / 10 ^ 9)" by (simp flip: exp_add)
  finally have "ln q \<le> ln (exp (17 - 2 / 10 ^ 9))" using q by (subst ln_le_cancel_iff) simp_all
  then have vhi: "v \<le> 17 - 2 / 10 ^ 9" by (simp add: v_def)
  have "exp (1::real) \<le> 3" by (rule exp_le)
  also have "\<dots> \<le> q" by (simp add: q_def)
  finally have "ln (exp 1) \<le> ln q" using q by (subst ln_le_cancel_iff) simp_all
  then have vlo: "1 \<le> v" by (simp add: v_def)
  have "\<bar>nearest v - v\<bar> \<le> \<bar>v\<bar> / 2 ^ 53 + 1 / 2 ^ 1075" by (rule nearest_error_signed)
  moreover have "\<bar>v\<bar> / 2 ^ 53 \<le> 17 / 2 ^ 53" using vlo vhi by (intro divide_right_mono) simp_all
  moreover have "(17::real) / 2 ^ 53 + 1 / 2 ^ 1075 < 1 / 10 ^ 9" "(1::real) / 10 ^ 9 < 1"
    by simp_all
  ultimately have n: "nearest v < 17 - 1 / 10 ^ 9" "0 < nearest v" using vlo vhi by linarith+
  have "\<bar>nearest v\<bar> \<le> 17" using n by simp
  then have "\<bar>nearest v\<bar> \<le> dbl_max" using big by linarith
  then have bl: "binary64 v = Fin (nearest v)" by (rule binary64_bounded)
  have "0 < a" by (simp add: a_def)
  then have "inv_fn binary64 (Fin y) = Fin (nearest v)"
    using bd bq bl q by (simp add: inv_fn_def dsub_def trunc_log_def v_def)
  then show "inv_fn binary64 (Fin (1 - 372892425 / 2 ^ 53))
      = Fin (nearest (ln (6484045738209110 / 2 ^ 28)))"
    by (simp only: v_def q_def y_def)
  show "nearest (ln (6484045738209110 / 2 ^ 28)) < 17 - 1 / 10 ^ 9"
    using n(1) by (simp only: v_def q_def)
  show "0 < nearest (ln (6484045738209110 / 2 ^ 28))"
    using n(2) by (simp only: v_def q_def)
qed

lemma inv_fn_binary64_perturbed:
  fixes s y al be m :: real
  assumes s: "0 < s" "s < 1"
    and y: "1 / 2 ^ 1024 \<le> y"
    and ys: "\<bar>y - s\<bar> \<le> al * s" and al: "al \<le> 1 / 2"
    and ya: "\<bar>y - s\<bar> \<le> be * (1 - s)" and be: "be \<le> 1 / 2"
    and far: "1 / 2 ^ 1000 \<le> 1 - s"
    and m: "\<bar>ln (s / (1 - s))\<bar> \<le> m" "m \<le> 1024"
  shows "\<exists>l. inv_fn binary64 (Fin y) = Fin l \<and>
             \<bar>l - ln (s / (1 - s))\<bar>
               \<le> (al + 2 * (al * al)) + (be + 2 * (be * be)) + (m + 12) / 2 ^ 53"
proof -
  define v :: real where "v = 1 / 2 ^ 53"
  define w :: real where "w = 1 / 2 ^ 1075"
  define z :: real where "z = 1 / 2 ^ 1024"
  have v: "0 < v" "v \<le> 1 / 2" "5 * v \<le> 1 / 2" and w: "0 < w" "w \<le> v"
    and wz: "w = 4 * v * z" and z: "0 < z"
    by (simp_all add: v_def w_def z_def)
  have vv: "v * v \<le> v * (1 / 64)" using v by (intro mult_left_mono) (simp_all add: v_def)
  have ypos: "0 < y" using y by (rule order_less_le_trans [rotated]) simp
  define b where "b = 1 - s"
  define a where "a = 1 - y"
  have bpos: "0 < b" using s by (simp add: b_def)
  \<comment> \<open>the two perturbations of the forward value\<close>
  have al0: "0 \<le> al"
  proof -
    have "0 \<le> al * s" using ys by linarith
    then show ?thesis using s by (simp add: zero_le_mult_iff)
  qed
  have be0: "0 \<le> be"
  proof -
    have "0 \<le> be * b" using ya by (simp add: b_def)
    then show ?thesis using bpos by (simp add: zero_le_mult_iff)
  qed
  have "al * al \<le> 1 / 2 * (1 / 2)" using al al0 by (intro mult_mono) simp_all
  then have A: "0 \<le> al + 2 * (al * al)" "al + 2 * (al * al) \<le> 1" using al al0 by simp_all
  have "be * be \<le> 1 / 2 * (1 / 2)" using be be0 by (intro mult_mono) simp_all
  then have B: "0 \<le> be + 2 * (be * be)" "be + 2 * (be * be) \<le> 1" using be be0 by simp_all
  have lny: "\<bar>ln y - ln s\<bar> \<le> al + 2 * (al * al)" using s(1) ys al by (rule ln_close)
  have ab: "\<bar>a - b\<bar> \<le> be * b" using ya by (simp add: a_def b_def abs_minus_commute)
  have apos: "0 < a" and lna: "\<bar>ln a - ln b\<bar> \<le> be + 2 * (be * be)"
    using bpos ab be by (rule ln_close)+
  have "be * b \<le> 1 / 2 * b" using be bpos by (intro mult_right_mono) simp_all
  then have alo: "b / 2 \<le> a" using ab by linarith
  have a1: "a \<le> 1" using ypos by (simp add: a_def)
  have "(2::real) powi (- 1022) \<le> 2 powi (- 1001)" by (intro power_int_increasing) simp_all
  also have "\<dots> = 1 / 2 ^ 1000 / 2" by (simp add: power_int_minus_divide)
  also have "\<dots> \<le> b / 2" using far by (simp add: b_def)
  finally have anorm: "2 powi (- 1022) \<le> a" and afar: "1 / 2 ^ 1000 / 2 \<le> a"
    using alo \<open>1 / 2 ^ 1000 / 2 \<le> b / 2\<close> by linarith+
  \<comment> \<open>the difference \<open>1 - y\<close>\<close>
  define d where "d = nearest a"
  have "\<bar>d - a\<bar> \<le> a / 2 ^ 53" unfolding d_def using anorm by (rule nearest_error_normal)
  then have derr: "\<bar>d - a\<bar> \<le> v * a" by (simp add: v_def)
  have dpos: "0 < d" and "\<bar>ln d - ln a\<bar> \<le> v + 2 * (v * v)"
    using apos derr v(2) by (rule ln_close)+
  then have lnd: "\<bar>ln d - ln a\<bar> \<le> 2 * v" using vv by linarith
  have "v * a \<le> 1 / 2 * a" using v apos by (intro mult_right_mono) simp_all
  then have dlo: "a / 2 \<le> d" using derr by linarith
  have d1: "d \<le> 1" unfolding d_def using apos a1 by (rule nearest_le_one)
  have bd: "binary64 a = Fin d"
    unfolding d_def using apos a1 by (intro binary64_finite) simp_all
  \<comment> \<open>the quotient \<open>y / (1 - y)\<close>\<close>
  define r where "r = y / d"
  define q where "q = nearest r"
  have rpos: "0 < r" using ypos dpos by (simp add: r_def)
  have "y * d \<le> y * 1" using ypos d1 by (intro mult_left_mono) simp_all
  then have "y \<le> r" using dpos by (simp add: r_def pos_le_divide_eq)
  then have rz: "z \<le> r" using y by (simp add: z_def)
  have "y < 1" using apos by (simp add: a_def)
  moreover have "1 / 2 ^ 1002 \<le> d" using afar dlo by simp
  ultimately have "y \<le> 2 ^ 1002 * d" by simp
  then have "r \<le> 2 ^ 1002" using dpos by (simp add: r_def pos_divide_le_eq)
  then have rsmall: "r < 2 ^ 1024 - 2 ^ 970" by (rule order_le_less_trans) simp
  have "\<bar>q - r\<bar> \<le> r / 2 ^ 53 + 1 / 2 ^ 1075" unfolding q_def by (rule nearest_error_any [OF rpos])
  then have "\<bar>q - r\<bar> \<le> r * v + w" by (simp add: v_def w_def)
  moreover have "4 * v * z \<le> 4 * v * r" using v rz by (intro mult_left_mono) simp_all
  ultimately have qerr: "\<bar>q - r\<bar> \<le> 5 * v * r" unfolding wz by (simp add: algebra_simps)
  have qpos: "0 < q" and "\<bar>ln q - ln r\<bar> \<le> 5 * v + 2 * (5 * v * (5 * v))"
    using rpos qerr v(3) by (rule ln_close)+
  then have lnq: "\<bar>ln q - ln r\<bar> \<le> 6 * v" using vv by (simp add: algebra_simps)
  have bq: "binary64 (y / d) = Fin q"
    unfolding q_def r_def [symmetric] using rpos rsmall by (rule binary64_finite)
  \<comment> \<open>the logarithm of the quotient against the exact one\<close>
  have "ln r = ln y - ln d" using ypos dpos by (simp add: r_def ln_div)
  moreover have "ln (s / b) = ln s - ln b" using s bpos by (simp add: ln_div)
  ultimately have close: "\<bar>ln q - ln (s / b)\<bar>
      \<le> (al + 2 * (al * al)) + (be + 2 * (be * be)) + 8 * v"
    using lnq lny lnd lna by linarith
  have mb: "\<bar>ln (s / b)\<bar> \<le> m" using m by (simp add: b_def)
  have "8 * v \<le> 1" by (simp add: v_def)
  then have bound: "\<bar>ln q\<bar> \<le> m + 3" using close mb A B by linarith
  \<comment> \<open>the logarithm\<close>
  define l where "l = nearest (ln q)"
  have "\<bar>l - ln q\<bar> \<le> \<bar>ln q\<bar> / 2 ^ 53 + 1 / 2 ^ 1075"
    unfolding l_def by (rule nearest_error_signed)
  then have "\<bar>l - ln q\<bar> \<le> \<bar>ln q\<bar> * v + w" by (simp add: v_def w_def)
  moreover have "\<bar>ln q\<bar> * v \<le> (m + 3) * v"
    using bound v by (intro mult_right_mono) simp_all
  ultimately have "\<bar>l - ln q\<bar> \<le> (m + 3) * v + w" by linarith
  then have lerr: "\<bar>l - ln q\<bar> \<le> (m + 4) * v" using w by (simp add: algebra_simps)
  have "(m + 4) * v \<le> (1024 + 4) * v" using m v by (intro mult_right_mono) simp_all
  also have "\<dots> \<le> 1" by (simp add: v_def)
  finally have "\<bar>l\<bar> \<le> 1028" using lerr bound m by linarith
  moreover have "1028 \<le> dbl_max" using dbl_max_ge by (rule order_trans [rotated]) simp
  ultimately have "\<bar>nearest (ln q)\<bar> \<le> dbl_max" unfolding l_def by linarith
  then have bl: "binary64 (ln q) = Fin l" unfolding l_def by (rule binary64_bounded)
  have "\<bar>l - ln (s / b)\<bar> \<le> (al + 2 * (al * al)) + (be + 2 * (be * be)) + (m + 12) * v"
    using lerr close by (simp add: algebra_simps)
  then have "\<bar>l - ln (s / (1 - s))\<bar>
      \<le> (al + 2 * (al * al)) + (be + 2 * (be * be)) + (m + 12) / 2 ^ 53"
    by (simp add: v_def b_def)
  moreover have "inv_fn binary64 (Fin y) = Fin l"
    using bd bq bl dpos qpos by (simp add: inv_fn_def dsub_def trunc_log_def a_def)
  ultimately show ?thesis by blast
qed

lemma logit_of_logistic:
  fixes x :: real
  shows "ln ((1 / (1 + exp (- x))) / (1 - 1 / (1 + exp (- x)))) = x"
proof -
  have "(1 / (1 + exp (- x))) / (1 - 1 / (1 + exp (- x))) = 1 / exp (- x)"
    by (rule odds_of_logistic) simp
  also have "\<dots> = exp x" by (simp add: exp_minus field_simps)
  finally show ?thesis by simp
qed

lemma inv_fn_binary64_round_trip:
  assumes "x \<le> 31"
  shows "\<exists>l. inv_fn binary64 (fn binary64 (Fin x)) = Fin l \<and>
             \<bar>l - max x (- log_max)\<bar> \<le> exp x / 2 ^ 52 + 1 / 2 ^ 42"
proof -
  define v :: real where "v = 1 / 2 ^ 53"
  have v: "0 < v" "v * v \<le> v * (1 / 64)" by (simp_all add: v_def)
  define s where "s = 1 / (1 + exp (- x))"
  have s: "0 < s" "s < 1" by (simp_all add: s_def add_pos_pos)
  have x: "ln (s / (1 - s)) = x" unfolding s_def by (rule logit_of_logistic)
  have pos: "0 \<le> exp x / 2 ^ 52" by simp
  consider "x \<le> - log_max" | "- log_max < x" "x \<le> 0" | "0 < x" by linarith
  then show ?thesis
  proof cases
    case 1
    then have "log_max \<le> - x" by simp
    then have "fn binary64 (Fin x) = Fin (1 / 2 ^ 1024)" by (rule fn_binary64_truncated)
    then have "inv_fn binary64 (fn binary64 (Fin x)) = Fin (nearest (ln (1 / 2 ^ 1024)))"
      by (simp only: inv_fn_binary64_truncated(1))
    moreover have "max x (- log_max) = - log_max" using 1 by simp
    then have "\<bar>nearest (ln (1 / 2 ^ 1024)) - max x (- log_max)\<bar> \<le> exp x / 2 ^ 52 + 1 / 2 ^ 42"
      using inv_fn_binary64_truncated_close pos by linarith
    ultimately show ?thesis by blast
  next
    case 2
    obtain y where y: "fn binary64 (Fin x) = Fin y" and ylo: "1 / 2 ^ 1024 \<le> y"
      and "\<bar>y - s\<bar> \<le> 8 / 2 ^ 53 * s"
      unfolding s_def using fn_binary64_relative [OF 2] by blast
    then have yerr: "\<bar>y - s\<bar> \<le> 8 * v * s" by (simp add: v_def)
    have "1 \<le> exp (- x)" using 2 by simp
    then have "1 / (1 + exp (- x)) \<le> 1 / 2"
      by (intro divide_left_mono) (simp_all add: add_pos_pos)
    then have half: "s \<le> 1 / 2" by (simp only: s_def)
    have "8 * v * s \<le> 8 * v * (1 - s)" using half v by (intro mult_left_mono) simp_all
    then have yerr': "\<bar>y - s\<bar> \<le> 8 * v * (1 - s)" using yerr by linarith
    have "(1::real) / 2 ^ 1000 \<le> 1 / 2" by simp
    then have far: "1 / 2 ^ 1000 \<le> 1 - s" using half by linarith
    have m: "\<bar>ln (s / (1 - s))\<bar> \<le> 1024" unfolding x using 2 log_max_less by linarith
    have c: "8 * v \<le> 1 / 2" by (simp add: v_def)
    obtain l where l: "inv_fn binary64 (Fin y) = Fin l"
      and "\<bar>l - ln (s / (1 - s))\<bar>
         \<le> (8 * v + 2 * (8 * v * (8 * v))) + (8 * v + 2 * (8 * v * (8 * v))) + (1024 + 12) / 2 ^ 53"
      using inv_fn_binary64_perturbed [OF s ylo yerr c yerr' c far m] by auto
    then have "\<bar>l - x\<bar> \<le> 16 * v + 256 * (v * v) + 1036 * v"
      unfolding x by (simp add: v_def)
    then have "\<bar>l - x\<bar> \<le> 2048 * v" using v by linarith
    moreover have "2048 * v = 1 / 2 ^ 42" by (simp add: v_def)
    moreover have "max x (- log_max) = x" using 2 by simp
    ultimately have "\<bar>l - max x (- log_max)\<bar> \<le> exp x / 2 ^ 52 + 1 / 2 ^ 42"
      using pos by linarith
    then show ?thesis using y l by simp
  next
    case 3
    define E where "E = exp x"
    define Ev where "Ev = E * v"
    define be where "be = 3 / 2 * v + 3 / 2 * Ev"
    have E1: "1 \<le> E" using 3 by (simp add: E_def)
    have "E \<le> exp 31" using assms by (simp add: E_def)
    then have E2: "E \<le> 2 ^ 46" using exp_thirty_one by linarith
    have Ev: "0 < Ev" "Ev \<le> 1 / 128" using E1 E2 by (simp_all add: Ev_def v_def)
    have "0 \<le> x" using 3 by simp
    then obtain y where y: "fn binary64 (Fin x) = Fin y"
      and "\<bar>y - s\<bar> \<le> 3 / 2 ^ 54"
      unfolding s_def using fn_binary64_near_one assms by blast
    then have yerr: "\<bar>y - s\<bar> \<le> 3 / 2 * v" by (simp add: v_def)
    have "exp (- x) \<le> 1" using 3 by simp
    then have "1 / 2 \<le> 1 / (1 + exp (- x))"
      by (intro divide_left_mono) (simp_all add: add_pos_pos)
    then have half: "1 / 2 \<le> s" by (simp only: s_def)
    have "3 * v * (1 / 2) \<le> 3 * v * s" using half v by (intro mult_left_mono) simp_all
    then have ys: "\<bar>y - s\<bar> \<le> 3 * v * s" using yerr by linarith
    have al: "3 * v \<le> 1 / 2" by (simp add: v_def)
    have compl: "1 - s = 1 / (1 + E)" unfolding s_def E_def using logistic_sum [of x] by linarith
    have "be * (1 - s) = 3 / 2 * v" using E1 by (simp add: compl be_def Ev_def field_simps)
    then have ya: "\<bar>y - s\<bar> \<le> be * (1 - s)" using yerr by simp
    have be: "0 \<le> be" "be \<le> 1 / 64" using Ev v by (simp_all add: be_def v_def)
    then have be': "be \<le> 1 / 2" by simp
    have "1 / 2 ^ 1000 \<le> 1 / (1 + (2 ^ 46 :: real))" by simp
    also have "\<dots> \<le> 1 / (1 + E)" using E1 E2 by (intro divide_left_mono) simp_all
    finally have far: "1 / 2 ^ 1000 \<le> 1 - s" by (simp only: compl)
    have "1 / 2 ^ 1024 \<le> 1 / 2 - 3 / 2 * v" by (simp add: v_def)
    then have ylo: "1 / 2 ^ 1024 \<le> y" using half yerr by linarith
    have m: "\<bar>ln (s / (1 - s))\<bar> \<le> x" "x \<le> 1024" unfolding x using 3 assms by simp_all
    obtain l where l: "inv_fn binary64 (Fin y) = Fin l"
      and "\<bar>l - ln (s / (1 - s))\<bar>
         \<le> (3 * v + 2 * (3 * v * (3 * v))) + (be + 2 * (be * be)) + (x + 12) / 2 ^ 53"
      using inv_fn_binary64_perturbed [OF s ylo ys al ya be' far m] by blast
    then have lerr: "\<bar>l - x\<bar> \<le> 3 * v + 18 * (v * v) + (be + 2 * (be * be)) + (x + 12) * v"
      unfolding x by (simp add: v_def)
    define B where "B = be + 2 * (be * be)"
    define V where "V = 3 * v + 18 * (v * v) + (x + 12) * v"
    have "be * be \<le> be * (1 / 64)" using be by (intro mult_left_mono) simp_all
    then have "B \<le> 33 / 32 * be" by (simp add: B_def)
    also have "\<dots> = 99 / 64 * v + 99 / 64 * Ev" by (simp add: be_def)
    finally have B: "B \<le> 99 / 64 * v + 99 / 64 * Ev" .
    have "x * v \<le> 31 * v" using assms v by (intro mult_right_mono) simp_all
    moreover have "V = 15 * v + 18 * (v * v) + x * v" by (simp add: V_def algebra_simps)
    ultimately have V: "V \<le> 47 * v" using v by linarith
    have "\<bar>l - x\<bar> \<le> V + B" using lerr by (simp add: V_def B_def)
    then have "\<bar>l - x\<bar> \<le> 2 * Ev + 2048 * v"
      using B V v Ev by linarith
    moreover have "2048 * v = 1 / 2 ^ 42" "2 * Ev = exp x / 2 ^ 52"
      by (simp_all add: Ev_def E_def v_def)
    moreover have "max x (- log_max) = x" using 3 log_max_pos by simp
    ultimately have "\<bar>l - max x (- log_max)\<bar> \<le> exp x / 2 ^ 52 + 1 / 2 ^ 42"
      by linarith
    then show ?thesis using y l by simp
  qed
qed

lemma inv_fn_binary64_round_trip_tolerance:
  assumes "x \<le> 15"
  shows "\<exists>l. inv_fn binary64 (fn binary64 (Fin x)) = Fin l \<and>
             \<bar>l - max x (- log_max)\<bar> < 1 / 10 ^ 9"
proof -
  have "x \<le> 31" using assms by simp
  then obtain l where l: "inv_fn binary64 (fn binary64 (Fin x)) = Fin l"
    and lerr: "\<bar>l - max x (- log_max)\<bar> \<le> exp x / 2 ^ 52 + 1 / 2 ^ 42"
    using inv_fn_binary64_round_trip by blast
  have "exp x \<le> exp 15" using assms by simp
  then have "exp x \<le> 3300000" using exp_fifteen by linarith
  then have "exp x / 2 ^ 52 \<le> 3300000 / 2 ^ 52" by (intro divide_right_mono) simp_all
  moreover have "(3300000::real) / 2 ^ 52 + 1 / 2 ^ 42 < 1 / 1000000000" by simp
  ultimately have "\<bar>l - max x (- log_max)\<bar> < 1 / 1000000000" using lerr by linarith
  then show ?thesis using l by simp
qed


section \<open>The derivative\<close>

lemma deriv_binary64_half: "deriv binary64 (Fin (1 / 2)) = Fin (1 / 4)"
proof -
  have "nearest (1 / 4) = 1 / 4"
    using nearest_power_of_two [of "- 2"] by (simp add: power_int_minus_divide)
  then have "binary64 (1 / 4) = Fin (1 / 4)" using dbl_max_ge by (simp add: binary64_def)
  then show ?thesis by (simp add: deriv_def dsub_def binary64_half)
qed

text \<open>
  Claim C5. For every real \<open>y\<close>, with no validation of the input, \<open>deriv y\<close> is
  \<open>y * (1 - y)\<close>; for \<open>y\<close> strictly between 0 and 1 the value is positive and at most
  0.25, and the maximum 0.25 is taken at \<open>y = 0.5\<close>, in double arithmetic too.
\<close>

theorem deriv_value_and_range:
  "deriv exact (Fin y) = Fin (y * (1 - y)) \<and>
   (0 < y \<and> y < 1 \<longrightarrow>
      dlt (Fin 0) (deriv exact (Fin y)) \<and> dle (deriv exact (Fin y)) (Fin (1 / 4))) \<and>
   deriv exact (Fin (1 / 2)) = Fin (1 / 4) \<and>
   deriv binary64 (Fin (1 / 2)) = Fin (1 / 4)"
proof -
  have "y * (1 - y) \<le> 1 / 4"
  proof -
    have "1 / 4 - y * (1 - y) = (y - 1 / 2)\<^sup>2"
      by (simp add: power2_eq_square algebra_simps)
    then show ?thesis using zero_le_power2 [of "y - 1 / 2"] by linarith
  qed
  then show ?thesis using deriv_binary64_half by (simp add: deriv_exact)
qed

theorem deriv_value_and_range_witness:
  "(0 < (1 / 3 :: real) \<and> (1 / 3 :: real) < 1) \<and>
   deriv exact (Fin (1 / 3)) = Fin (2 / 9) \<and>
   dlt (Fin 0) (deriv exact (Fin (1 / 3))) \<and> dle (deriv exact (Fin (1 / 3))) (Fin (1 / 4))"
  using deriv_value_and_range [of "1 / 3"] by simp

text \<open>
  Claim C9. The derivative is symmetric about \<open>y = 0.5\<close>: for every real \<open>y\<close>,
  \<open>deriv y = deriv (1 - y)\<close>; in particular \<open>deriv 0 = deriv 1 = 0\<close>, in double
  arithmetic too.
\<close>

theorem deriv_symmetric:
  "deriv exact (Fin y) = deriv exact (Fin (1 - y)) \<and>
   deriv exact (Fin 0) = Fin 0 \<and> deriv exact (Fin 1) = Fin 0 \<and>
   deriv binary64 (Fin 0) = Fin 0 \<and> deriv binary64 (Fin 1) = Fin 0"
proof -
  have "deriv binary64 (Fin 0) = Fin 0" "deriv binary64 (Fin 1) = Fin 0"
    by (simp_all add: deriv_def dsub_def binary64_one binary64_zero)
  then show ?thesis by (simp add: deriv_exact)
qed


section \<open>The inverse after the forward evaluation, and back\<close>

text \<open>
  Claim C3. For every \<open>y\<close> with \<open>0.001 \<le> y \<le> 0.999\<close>, the forward evaluation of the
  inverse returns the input within tolerance, \<open>fn (inv y) = y\<close>, where
  \<open>inv y = ln (y / (1 - y))\<close>; in particular \<open>inv 0.5 = 0\<close>. In exact arithmetic the
  round trip is exact, and in double arithmetic it returns a finite number within
  \<open>2\<^sup>-\<^sup>4\<^sup>8\<close> of \<open>y\<close>.
\<close>

theorem fn_inv_round_trip:
  assumes "1 / 1000 \<le> y" and "y \<le> 999 / 1000"
  shows "inv_fn exact (Fin y) = Fin (ln (y / (1 - y))) \<and>
         fn exact (inv_fn exact (Fin y)) = Fin y \<and>
         inv_fn exact (Fin (1 / 2)) = Fin 0 \<and>
         (\<exists>r. fn binary64 (inv_fn binary64 (Fin y)) = Fin r \<and> \<bar>r - y\<bar> \<le> 1 / 2 ^ 48) \<and>
         inv_fn binary64 (Fin (1 / 2)) = Fin 0"
proof -
  have y: "0 < y" "y < 1" using assms by simp_all
  let ?u = "ln (y / (1 - y))"
  have "(1 - y) / y \<le> 999"
    using assms y by (simp add: field_simps)
  also have "\<dots> < dbl_max" using dbl_max_ge by (rule order_less_le_trans [rotated]) simp
  finally have "exp (- ?u) < exp log_max"
    using y by (simp add: exp_log_max exp_minus field_simps)
  then have small: "\<not> log_max \<le> - ?u" by simp
  have "1 / (1 + exp (- ?u)) = y" using y by (rule logistic_of_logit)
  then have "fn exact (Fin ?u) = Fin y"
    using small by (simp add: fn_exact)
  then have "inv_fn exact (Fin y) = Fin (ln (y / (1 - y)))"
    "fn exact (inv_fn exact (Fin y)) = Fin y" "inv_fn exact (Fin (1 / 2)) = Fin 0"
    using y by (simp_all add: inv_fn_exact)
  then show ?thesis
    using fn_inv_binary64_close [OF assms] inv_fn_binary64_half by blast
qed

theorem fn_inv_round_trip_witness:
  "(1 / 1000 \<le> (1 / 4 :: real) \<and> (1 / 4 :: real) \<le> 999 / 1000) \<and>
   fn exact (inv_fn exact (Fin (1 / 4))) = Fin (1 / 4)"
proof -
  have h: "1 / 1000 \<le> (1 / 4 :: real)" "(1 / 4 :: real) \<le> 999 / 1000" by simp_all
  from fn_inv_round_trip [OF h] have "fn exact (inv_fn exact (Fin (1 / 4))) = Fin (1 / 4)"
    by blast
  with h show ?thesis by blast
qed


text \<open>
  Claim C10, as amended. In exact arithmetic the inverse of the forward evaluation recovers
  the input down to the truncation threshold of the exponential: for every real \<open>x\<close> the
  forward value lies strictly between 0 and 1, and \<open>inv (fn x)\<close> is \<open>x\<close> when
  \<open>x \<ge> - ln DBL_MAX\<close> and \<open>- ln DBL_MAX\<close> when \<open>x\<close> is below that. In double arithmetic
  \<open>inv (fn x)\<close> is a finite number within \<open>e\<^sup>x / 2\<^sup>5\<^sup>2 + 2\<^sup>-\<^sup>4\<^sup>2\<close> of that same value for
  every \<open>x \<le> 31\<close>, hence within \<open>10\<^sup>-\<^sup>9\<close> of it for every \<open>x \<le> 15\<close>: the accuracy holds
  all the way down to the threshold and is lost as \<open>x\<close> grows, because the forward value
  is rounded next to 1. From \<open>x = 37\<close> on the forward value is 1 and its inverse is
  \<open>ln DBL_MAX\<close>.
\<close>

theorem inv_fn_round_trip:
  "inv_fn exact (fn exact (Fin x)) = Fin (max x (- log_max)) \<and>
   dlt (Fin 0) (fn exact (Fin x)) \<and> dlt (fn exact (Fin x)) (Fin 1) \<and>
   (x \<le> 31 \<longrightarrow>
      (\<exists>l. inv_fn binary64 (fn binary64 (Fin x)) = Fin l \<and>
           \<bar>l - max x (- log_max)\<bar> \<le> exp x / 2 ^ 52 + 1 / 2 ^ 42)) \<and>
   (x \<le> 15 \<longrightarrow>
      (\<exists>l. inv_fn binary64 (fn binary64 (Fin x)) = Fin l \<and>
           \<bar>l - max x (- log_max)\<bar> < 1 / 10 ^ 9)) \<and>
   (37 \<le> x \<longrightarrow>
      fn binary64 (Fin x) = Fin 1 \<and> inv_fn binary64 (fn binary64 (Fin x)) = Fin log_max)"
proof -
  let ?u = "min log_max (- x)"
  let ?r = "1 / (1 + exp ?u)"
  have e: "0 < exp ?u" by simp
  then have r: "0 < ?r" "?r < 1" by (simp_all add: add_pos_pos)
  have "?r / (1 - ?r) = exp (- ?u)"
    using odds_of_logistic [OF e] by (simp only: exp_minus inverse_eq_divide)
  then have "ln (?r / (1 - ?r)) = - ?u" by simp
  also have "\<dots> = max x (- log_max)" by (simp add: min_def max_def)
  finally have "inv_fn exact (fn exact (Fin x)) = Fin (max x (- log_max))"
    "dlt (Fin 0) (fn exact (Fin x))" "dlt (fn exact (Fin x)) (Fin 1)"
    using r by (simp_all add: fn_exact_min inv_fn_exact)
  moreover have "fn binary64 (Fin x) = Fin 1 \<and>
      inv_fn binary64 (fn binary64 (Fin x)) = Fin log_max" if "37 \<le> x"
    using fn_binary64_saturated [OF that] by (simp add: inv_fn_binary64_one)
  ultimately show ?thesis
    using inv_fn_binary64_round_trip [of x] inv_fn_binary64_round_trip_tolerance [of x]
    by blast
qed

theorem inv_fn_round_trip_witness:
  "((1::real) \<le> 31 \<and> (1::real) \<le> 15) \<and>
   (\<exists>l. inv_fn binary64 (fn binary64 (Fin 1)) = Fin l \<and> \<bar>l - 1\<bar> < 1 / 10 ^ 9) \<and>
   inv_fn exact (fn exact (Fin 1)) = Fin 1 \<and>
   (37::real) \<le> 37 \<and>
   fn binary64 (Fin 37) = Fin 1 \<and> inv_fn binary64 (fn binary64 (Fin 37)) = Fin log_max"
proof -
  have "max 1 (- log_max) = 1" using log_max_pos by simp
  then have
    "(\<exists>l. inv_fn binary64 (fn binary64 (Fin 1)) = Fin l \<and> \<bar>l - 1\<bar> < 1 / 10 ^ 9) \<and>
     inv_fn exact (fn exact (Fin 1)) = Fin 1"
    using inv_fn_round_trip [of 1] by simp
  moreover have
    "fn binary64 (Fin 37) = Fin 1 \<and> inv_fn binary64 (fn binary64 (Fin 37)) = Fin log_max"
    using inv_fn_round_trip [of 37] by blast
  moreover have "(1::real) \<le> 31 \<and> (1::real) \<le> 15" "(37::real) \<le> 37" by simp_all
  ultimately show ?thesis by blast
qed

text \<open>
  The claim as stated fails on both sides. At \<open>x = -2048\<close> the forward value lies strictly
  between 0 and 1, and its inverse is \<open>- ln DBL_MAX\<close>, more than 1024 away from the input;
  in double arithmetic the forward value is \<open>2\<^sup>-\<^sup>1\<^sup>0\<^sup>2\<^sup>4\<close> and its inverse the double nearest
  to \<open>ln 2\<^sup>-\<^sup>1\<^sup>0\<^sup>2\<^sup>4\<close>, more than 1023 away from the input. At \<open>x = 17\<close> and at
  \<open>x = 36\<close> nothing is truncated and the forward value in double arithmetic lies strictly
  between 0 and 1: at 17 it is \<open>1 - 372892425 / 2\<^sup>5\<^sup>3\<close> and its inverse is more than
  \<open>10\<^sup>-\<^sup>9\<close> below the input; at 36 it is \<open>1 - 2\<^sup>-\<^sup>5\<^sup>2\<close> and its inverse, the double nearest
  to \<open>ln (2\<^sup>5\<^sup>2 - 1)\<close>, is more than \<open>1/40\<close> away from the input.
\<close>

theorem inv_fn_round_trip_counterexample:
  "dlt (Fin 0) (fn exact (Fin (- 2048))) \<and> dlt (fn exact (Fin (- 2048))) (Fin 1) \<and>
   inv_fn exact (fn exact (Fin (- 2048))) = Fin (- log_max) \<and>
   1024 < \<bar>- log_max - (- 2048)\<bar> \<and>
   dlt (Fin 0) (fn binary64 (Fin (- 2048))) \<and> dlt (fn binary64 (Fin (- 2048))) (Fin 1) \<and>
   inv_fn binary64 (fn binary64 (Fin (- 2048))) = Fin (nearest (ln (1 / 2 ^ 1024))) \<and>
   1023 < \<bar>nearest (ln (1 / 2 ^ 1024)) - (- 2048)\<bar> \<and>
   fn binary64 (Fin 17) = Fin (1 - 372892425 / 2 ^ 53) \<and>
   dlt (Fin 0) (fn binary64 (Fin 17)) \<and> dlt (fn binary64 (Fin 17)) (Fin 1) \<and>
   inv_fn binary64 (fn binary64 (Fin 17)) = Fin (nearest (ln (6484045738209110 / 2 ^ 28))) \<and>
   1 / 10 ^ 9 < \<bar>nearest (ln (6484045738209110 / 2 ^ 28)) - 17\<bar> \<and>
   fn binary64 (Fin 36) = Fin (1 - 1 / 2 ^ 52) \<and>
   dlt (Fin 0) (fn binary64 (Fin 36)) \<and> dlt (fn binary64 (Fin 36)) (Fin 1) \<and>
   inv_fn binary64 (fn binary64 (Fin 36)) = Fin (nearest (ln (2 ^ 52 - 1))) \<and>
   1 / 40 < \<bar>nearest (ln (2 ^ 52 - 1)) - 36\<bar>"
proof -
  let ?r = "1 / (1 + dbl_max)"
  have r: "0 < ?r" "?r < 1" using dbl_max_pos by (simp_all add: add_pos_pos)
  have trunc: "log_max \<le> - (- 2048)" using log_max_less by simp
  then have f: "fn exact (Fin (- 2048)) = Fin ?r" by (simp only: fn_exact if_True)
  have "ln (?r / (1 - ?r)) = ln (1 / dbl_max)"
    using odds_of_logistic [OF dbl_max_pos] by simp
  also have "\<dots> = - log_max"
    using dbl_max_pos by (simp add: log_max_def ln_div)
  finally have "inv_fn exact (Fin ?r) = Fin (- log_max)"
    using inv_fn_exact [OF r] by simp
  moreover have "1024 < \<bar>- log_max - (- 2048)\<bar>" using log_max_less by simp
  ultimately have exact:
    "dlt (Fin 0) (fn exact (Fin (- 2048))) \<and> dlt (fn exact (Fin (- 2048))) (Fin 1) \<and>
     inv_fn exact (fn exact (Fin (- 2048))) = Fin (- log_max) \<and>
     1024 < \<bar>- log_max - (- 2048)\<bar>"
    using r unfolding f by simp
  have g: "fn binary64 (Fin (- 2048)) = Fin (1 / 2 ^ 1024)"
    using trunc by (rule fn_binary64_truncated)
  have "1023 < \<bar>nearest (ln (1 / 2 ^ 1024)) - (- 2048)\<bar>"
    using inv_fn_binary64_truncated(3) by linarith
  then have below:
    "dlt (Fin 0) (fn binary64 (Fin (- 2048))) \<and> dlt (fn binary64 (Fin (- 2048))) (Fin 1) \<and>
     inv_fn binary64 (fn binary64 (Fin (- 2048))) = Fin (nearest (ln (1 / 2 ^ 1024))) \<and>
     1023 < \<bar>nearest (ln (1 / 2 ^ 1024)) - (- 2048)\<bar>"
    unfolding g using inv_fn_binary64_truncated(1) by simp
  have "1 / 10 ^ 9 < \<bar>nearest (ln (6484045738209110 / 2 ^ 28)) - 17\<bar>"
    using inv_fn_binary64_seventeen(2) by linarith
  then have between:
    "fn binary64 (Fin 17) = Fin (1 - 372892425 / 2 ^ 53) \<and>
     dlt (Fin 0) (fn binary64 (Fin 17)) \<and> dlt (fn binary64 (Fin 17)) (Fin 1) \<and>
     inv_fn binary64 (fn binary64 (Fin 17))
       = Fin (nearest (ln (6484045738209110 / 2 ^ 28))) \<and>
     1 / 10 ^ 9 < \<bar>nearest (ln (6484045738209110 / 2 ^ 28)) - 17\<bar>"
    unfolding fn_binary64_seventeen using inv_fn_binary64_seventeen(1) by simp
  have "1 / 40 < \<bar>nearest (ln (2 ^ 52 - 1)) - 36\<bar>"
    using inv_fn_binary64_below_one(2) by linarith
  then have above:
    "fn binary64 (Fin 36) = Fin (1 - 1 / 2 ^ 52) \<and>
     dlt (Fin 0) (fn binary64 (Fin 36)) \<and> dlt (fn binary64 (Fin 36)) (Fin 1) \<and>
     inv_fn binary64 (fn binary64 (Fin 36)) = Fin (nearest (ln (2 ^ 52 - 1))) \<and>
     1 / 40 < \<bar>nearest (ln (2 ^ 52 - 1)) - 36\<bar>"
    unfolding fn_binary64_thirty_six using inv_fn_binary64_below_one(1) by simp
  from exact below between above show ?thesis by blast
qed


section \<open>The forward evaluation\<close>

lemma logistic_one_approx:
  "\<bar>1 / (1 + exp (- 1 :: real)) - 731058578630 / 10 ^ 12\<bar> < 1 / 10 ^ 14"
proof -
  define e where "e = exp (- 1 :: real)"
  have b: "367879441171442 / 10 ^ 15 < e" "e < 367879441171443 / 10 ^ 15"
    using exp_minus_one_bounds by (simp_all add: e_def)
  have pos: "0 < 1 + e" using b by simp
  define v where "v = 1 / (1 + e)"
  have "v < 731058578630 / 10 ^ 12 + 1 / 10 ^ 14"
    unfolding v_def using b pos by (simp add: field_simps)
  moreover have "731058578630 / 10 ^ 12 - 1 / 10 ^ 14 < v"
    unfolding v_def using b pos by (simp add: field_simps)
  ultimately have "\<bar>v - 731058578630 / 10 ^ 12\<bar> < 1 / 10 ^ 14" by linarith
  then show ?thesis by (simp only: v_def e_def)
qed

text \<open>
  Claim C1, as amended. For every real \<open>x\<close> above \<open>- ln DBL_MAX\<close> the forward evaluation
  \<open>fn x\<close> is \<open>1 / (1 + e\<^sup>-\<^sup>x)\<close>; at and below \<open>- ln DBL_MAX\<close> the exponential is truncated and
  \<open>fn x\<close> is \<open>1 / (1 + DBL_MAX)\<close>. In particular \<open>fn 0 = 0.5\<close>, and \<open>fn 1\<close> is
  0.731058578630 to twelve decimal places. In double arithmetic \<open>fn 0\<close> is 0.5 and \<open>fn 1\<close>
  is 0.731058578630 to twelve places too, and \<open>fn x\<close> is within \<open>2\<^sup>-\<^sup>5\<^sup>1\<close> of
  \<open>1 / (1 + e\<^sup>-\<^sup>x)\<close> for every real \<open>x\<close>.
\<close>

theorem fn_value:
  "fn exact (Fin x) =
     Fin (if - log_max < x then 1 / (1 + exp (- x)) else 1 / (1 + dbl_max)) \<and>
   fn exact (Fin 0) = Fin (1 / 2) \<and>
   fn exact (Fin 1) = Fin (1 / (1 + exp (- 1))) \<and>
   \<bar>1 / (1 + exp (- 1 :: real)) - 731058578630 / 10 ^ 12\<bar> < 1 / 10 ^ 12 \<and>
   fn binary64 (Fin 0) = Fin (1 / 2) \<and>
   (\<exists>y. fn binary64 (Fin 1) = Fin y \<and> \<bar>y - 731058578630 / 10 ^ 12\<bar> < 1 / 10 ^ 12) \<and>
   (\<exists>y. fn binary64 (Fin x) = Fin y \<and> \<bar>y - 1 / (1 + exp (- x))\<bar> \<le> 1 / 2 ^ 51)"
proof -
  have "fn exact (Fin x) =
      Fin (if - log_max < x then 1 / (1 + exp (- x)) else 1 / (1 + dbl_max))"
    by (auto simp: fn_exact)
  moreover have "fn exact (Fin 0) = Fin (1 / 2)"
    using log_max_pos by (simp add: fn_exact)
  moreover have "fn exact (Fin 1) = Fin (1 / (1 + exp (- 1)))"
    using log_max_pos by (simp add: fn_exact)
  moreover have "\<bar>1 / (1 + exp (- 1 :: real)) - 731058578630 / 10 ^ 12\<bar> < 1 / 10 ^ 12"
    using logistic_one_approx by simp
  moreover have "\<exists>y. fn binary64 (Fin 1) = Fin y \<and> \<bar>y - 731058578630 / 10 ^ 12\<bar> < 1 / 10 ^ 12"
  proof -
    obtain y where y: "fn binary64 (Fin 1) = Fin y"
      and "\<bar>y - 1 / (1 + exp (- 1))\<bar> \<le> 1 / 2 ^ 51"
      using fn_binary64_value [of 1] by blast
    moreover have "(1::real) / 2 ^ 51 + 1 / 10 ^ 14 < 1 / 10 ^ 12" by simp
    ultimately have "\<bar>y - 731058578630 / 10 ^ 12\<bar> < 1 / 10 ^ 12"
      using logistic_one_approx by linarith
    with y show ?thesis by blast
  qed
  moreover have "\<exists>y. fn binary64 (Fin x) = Fin y \<and> \<bar>y - 1 / (1 + exp (- x))\<bar> \<le> 1 / 2 ^ 51"
    using fn_binary64_value [of x] by blast
  ultimately show ?thesis using fn_binary64_zero by blast
qed

text \<open>
  The claim as stated fails at \<open>x = -1024\<close>, where the exponential is truncated:
  \<open>fn (-1024)\<close> is not \<open>1 / (1 + e\<^sup>1\<^sup>0\<^sup>2\<^sup>4)\<close>.
\<close>

theorem fn_value_counterexample:
  "fn exact (Fin (- 1024)) \<noteq> Fin (1 / (1 + exp (- (- 1024))))"
proof -
  have "exp log_max < exp 1024" using log_max_less by (subst exp_less_cancel_iff)
  then have "dbl_max \<noteq> exp 1024" by (simp add: exp_log_max)
  moreover have "0 < 1 + dbl_max" "0 < 1 + exp (1024::real)"
    using dbl_max_pos by (simp_all add: add_pos_pos)
  ultimately show ?thesis using log_max_less by (simp add: fn_exact field_simps)
qed

lemma fn_sum_exact:
  "\<exists>s. dadd exact (fn exact (Fin x)) (fn exact (Fin (- x))) = Fin s \<and>
       \<bar>s - 1\<bar> \<le> 1 / (1 + dbl_max)"
proof -
  let ?a = "1 / (1 + exp (min log_max (- x)))" and ?b = "1 / (1 + exp (min log_max x))"
  have sum: "dadd exact (fn exact (Fin x)) (fn exact (Fin (- x))) = Fin (?a + ?b)"
    by (simp add: fn_exact_min exact_def)
  have D: "0 < 1 / (1 + dbl_max)" using dbl_max_pos by (simp add: add_pos_pos)
  have bound: "\<bar>?a + ?b - 1\<bar> \<le> 1 / (1 + dbl_max)"
  proof -
    consider "log_max \<le> - x" | "log_max \<le> x" | "- x < log_max" "x < log_max"
      by linarith
    then show ?thesis
    proof cases
      case 1
      then have "min log_max (- x) = log_max" "min log_max x = x"
        using log_max_pos by simp_all
      moreover have "1 / (1 + exp x) = 1 - 1 / (1 + exp (- x))"
        using logistic_sum [of x] by simp
      ultimately have "?a + ?b - 1 = 1 / (1 + dbl_max) - 1 / (1 + exp (- x))"
        by (simp add: exp_log_max)
      then show ?thesis using truncated_small [OF 1] by simp
    next
      case 2
      then have "min log_max (- x) = - x" "min log_max x = log_max"
        using log_max_pos by simp_all
      moreover have "1 / (1 + exp (- x)) = 1 - 1 / (1 + exp x)"
        using logistic_sum [of x] by simp
      ultimately have "?a + ?b - 1 = 1 / (1 + dbl_max) - 1 / (1 + exp x)"
        by (simp add: exp_log_max)
      then show ?thesis using truncated_small [OF 2] by simp
    next
      case 3
      then have "min log_max (- x) = - x" "min log_max x = x" by simp_all
      then show ?thesis using logistic_sum [of x] D by simp
    qed
  qed
  with sum show ?thesis by blast
qed

text \<open>
  Claim C7. For every finite \<open>x\<close>, \<open>fn x + fn (- x)\<close> is 1 within floating-point
  tolerance: in double arithmetic the sum is a finite number that differs from 1 by less
  than \<open>10\<^sup>-\<^sup>9\<close>, and in exact arithmetic it differs from 1 by at most
  \<open>1 / (1 + DBL_MAX)\<close>, the effect of the truncated exponential.
\<close>

theorem fn_symmetry:
  "(\<exists>s. dadd binary64 (fn binary64 (Fin x)) (fn binary64 (Fin (- x))) = Fin s \<and>
        \<bar>s - 1\<bar> < 1 / 10 ^ 9) \<and>
   (\<exists>s. dadd exact (fn exact (Fin x)) (fn exact (Fin (- x))) = Fin s \<and>
        \<bar>s - 1\<bar> \<le> 1 / (1 + dbl_max) \<and> \<bar>s - 1\<bar> < 1 / 10 ^ 9)"
proof -
  obtain s where "dadd exact (fn exact (Fin x)) (fn exact (Fin (- x))) = Fin s"
    and "\<bar>s - 1\<bar> \<le> 1 / (1 + dbl_max)"
    using fn_sum_exact [of x] by blast
  moreover from this have "\<bar>s - 1\<bar> < 1 / 10 ^ 9" using inv_dbl_max_small by linarith
  ultimately show ?thesis using fn_sum_binary64 [of x] by blast
qed

text \<open>
  Claim C8, as amended. The forward evaluation never decreases: for reals \<open>x1 < x2\<close>,
  \<open>fn x1 \<le> fn x2\<close>, in double arithmetic as in exact arithmetic. In exact arithmetic
  \<open>fn x1 < fn x2\<close> exactly when \<open>x2\<close> is above \<open>- ln DBL_MAX\<close>; at and below that
  threshold the exponential is truncated and \<open>fn\<close> is constant.
\<close>

theorem fn_monotone:
  assumes "x1 < x2"
  shows "dle (fn binary64 (Fin x1)) (fn binary64 (Fin x2)) \<and>
         dle (fn exact (Fin x1)) (fn exact (Fin x2)) \<and>
         (dlt (fn exact (Fin x1)) (fn exact (Fin x2)) \<longleftrightarrow> - log_max < x2)"
proof -
  let ?u1 = "min log_max (- x1)" and ?u2 = "min log_max (- x2)"
  have pos: "0 < 1 + exp ?u1" "0 < 1 + exp ?u2" by (simp_all add: add_pos_pos)
  have le: "?u2 \<le> ?u1" using assms by simp
  have lt: "?u2 < ?u1 \<longleftrightarrow> - log_max < x2" using assms by (auto simp: min_def)
  have "1 / (1 + exp ?u1) \<le> 1 / (1 + exp ?u2)"
    using le pos by (simp add: frac_le)
  moreover have "1 / (1 + exp ?u1) < 1 / (1 + exp ?u2) \<longleftrightarrow> ?u2 < ?u1"
    using pos by (simp add: field_simps)
  moreover have "dle (fn binary64 (Fin x1)) (fn binary64 (Fin x2))"
    using assms by (intro fn_binary64_monotone) simp
  ultimately show ?thesis using lt by (simp add: fn_exact_min)
qed

theorem fn_monotone_witness:
  "(0::real) < 1 \<and> dle (fn binary64 (Fin 0)) (fn binary64 (Fin 1)) \<and>
   dle (fn exact (Fin 0)) (fn exact (Fin 1)) \<and>
   dlt (fn exact (Fin 0)) (fn exact (Fin 1)) \<and> - log_max < 1"
proof -
  have h: "(0::real) < 1" by simp
  have "- log_max < 1" using log_max_pos by simp
  with fn_monotone [OF h] h show ?thesis by blast
qed

text \<open>
  The claim as stated fails at \<open>x1 = -2048\<close>, \<open>x2 = -1024\<close>: both arguments are below
  the truncation threshold and \<open>fn\<close> takes the same value at both.
\<close>

theorem fn_monotone_counterexample:
  "(- 2048 :: real) < - 1024 \<and>
   \<not> dlt (fn exact (Fin (- 2048))) (fn exact (Fin (- 1024))) \<and>
   \<not> dlt (fn binary64 (Fin (- 2048))) (fn binary64 (Fin (- 1024)))"
proof -
  have "fn binary64 (Fin (- 2048)) = fn binary64 (Fin (- 1024))"
    using log_max_less by (simp add: fn_def trunc_exp_def)
  moreover obtain r where "fn binary64 (Fin (- 1024)) = Fin r"
    using fn_binary64_value [of "- 1024"] by blast
  ultimately have "\<not> dlt (fn binary64 (Fin (- 2048))) (fn binary64 (Fin (- 1024)))"
    by simp
  then show ?thesis using log_max_less by (simp add: fn_exact)
qed

text \<open>
  Claim C2, as amended. For every finite \<open>x\<close> the forward evaluation in double arithmetic
  is a finite number, never NaN and never an infinity, with \<open>0 < fn x \<le> 1\<close>. The bound 1
  is reached by rounding, \<open>fn 10\<^sup>6 = 1\<close>, whereas in exact arithmetic \<open>fn x < 1\<close>; at
  the other end the truncated exponential keeps the value positive, \<open>fn (-10\<^sup>6) = 2\<^sup>-\<^sup>1\<^sup>0\<^sup>2\<^sup>4\<close>.
\<close>

theorem fn_range:
  "(\<exists>r. fn binary64 (Fin x) = Fin r \<and> 0 < r \<and> r \<le> 1) \<and>
   fn binary64 (Fin (10 ^ 6)) = Fin 1 \<and>
   fn binary64 (Fin (- (10 ^ 6))) = Fin (1 / 2 ^ 1024) \<and>
   dlt (Fin 0) (fn exact (Fin x)) \<and> dlt (fn exact (Fin x)) (Fin 1)"
proof -
  have "\<exists>r. fn binary64 (Fin x) = Fin r \<and> 0 < r \<and> r \<le> 1"
    using fn_binary64_value [of x] by blast
  moreover have "dlt (Fin 0) (fn exact (Fin x))" "dlt (fn exact (Fin x)) (Fin 1)"
    by (simp_all add: fn_exact_min add_pos_pos)
  ultimately show ?thesis
    using fn_binary64_million fn_binary64_minus_million by blast
qed

text \<open>
  The claim as stated fails at \<open>x = 10\<^sup>6\<close>: the exponential underflows to zero and the
  forward value is 1, which is not strictly below 1.
\<close>

theorem fn_range_counterexample:
  "\<not> dlt (fn binary64 (Fin (10 ^ 6))) (Fin 1)"
  using fn_binary64_million by simp


section \<open>The inverse at the boundary of its domain\<close>

lemma log_min_bounds: "- 1022 < log_min" "log_min < 0"
proof -
  have "log_min = ln (inverse (2 ^ 1022))"
    by (simp only: log_min_def dbl_min_def inverse_eq_divide)
  also have "\<dots> = - ln (2 ^ 1022)" by (rule ln_inverse)
  also have "ln ((2::real) ^ 1022) = 1022 * ln 2" by (subst ln_realpow) simp_all
  finally have "log_min = - (1022 * ln 2)" .
  moreover have "1022 * ln (2::real) < 1022 * 1"
    using ln_2_less_1 by (intro mult_strict_left_mono) simp_all
  moreover have "0 < ln (2::real)" by simp
  ultimately show "- 1022 < log_min" "log_min < 0" by linarith+
qed

text \<open>
  Claim C4, as amended. The inverse validates nothing and has no failing branch: it returns
  a value for every input. At \<open>y = 0\<close> and at \<open>y = 1\<close> the value is finite, not an
  infinity: the truncated logarithm saturates, and \<open>inv 0\<close> is \<open>ln DBL_MIN\<close>, between -1022
  and 0, and \<open>inv 1\<close> is \<open>ln DBL_MAX\<close>, between 0 and 1024, in double arithmetic as in exact
  arithmetic.
\<close>

theorem inv_fn_at_boundary:
  "inv_fn binary64 (Fin 0) = Fin log_min \<and> inv_fn binary64 (Fin 1) = Fin log_max \<and>
   inv_fn exact (Fin 0) = Fin log_min \<and> inv_fn exact (Fin 1) = Fin log_max \<and>
   - 1022 < log_min \<and> log_min < 0 \<and> 0 < log_max \<and> log_max < 1024"
  using log_min_bounds log_max_pos log_max_less
  by (simp add: inv_fn_def dsub_def trunc_log_def binary64_one binary64_zero exact_def)

text \<open>
  The claim as stated fails at both inputs: the inverse is neither infinity at \<open>y = 0\<close>
  nor at \<open>y = 1\<close>.
\<close>

theorem inv_fn_at_boundary_counterexample:
  "inv_fn binary64 (Fin 0) \<noteq> NInf \<and> inv_fn binary64 (Fin 0) \<noteq> PInf \<and>
   inv_fn binary64 (Fin 1) \<noteq> PInf \<and> inv_fn binary64 (Fin 1) \<noteq> NInf"
  by (simp add: inv_fn_def dsub_def trunc_log_def binary64_one binary64_zero)


section \<open>Containers against scalars\<close>

lemma map2_same: "map2 f xs (map g xs) = map (\<lambda>x. f x (g x)) xs"
  by (induction xs) simp_all

text \<open>
  Claim C6. For every input container, the container forms of \<open>fn\<close>, \<open>deriv\<close> and \<open>inv\<close>
  produce, element by element, the values of the scalar forms applied to each element, and
  the output container has the shape of the input: the same row and column counts and the
  same number of elements. This holds whatever the rounding of the arithmetic is.
\<close>

theorem container_parity:
  "fn_mat rnd x = x\<lparr>mem := map (fn rnd) (mem x)\<rparr> \<and>
   deriv_mat rnd x = Inr (x\<lparr>mem := map (deriv rnd) (mem x)\<rparr>) \<and>
   inv_mat rnd x = Inr (x\<lparr>mem := map (inv_fn rnd) (mem x)\<rparr>) \<and>
   n_rows (fn_mat rnd x) = n_rows x \<and> n_cols (fn_mat rnd x) = n_cols x \<and>
   length (mem (fn_mat rnd x)) = length (mem x) \<and>
   n_rows (projr (deriv_mat rnd x)) = n_rows x \<and> n_cols (projr (deriv_mat rnd x)) = n_cols x \<and>
   length (mem (projr (deriv_mat rnd x))) = length (mem x) \<and>
   n_rows (projr (inv_mat rnd x)) = n_rows x \<and> n_cols (projr (inv_mat rnd x)) = n_cols x \<and>
   length (mem (projr (inv_mat rnd x))) = length (mem x)"
proof -
  have f: "fn_mat rnd x = x\<lparr>mem := map (fn rnd) (mem x)\<rparr>"
    by (simp add: fn_mat_def scalar_div_def scalar_plus_def mat_trunc_exp_def mat_neg_def
        each_def fn_def comp_def)
  have d: "deriv_mat rnd x = Inr (x\<lparr>mem := map (deriv rnd) (mem x)\<rparr>)"
    by (simp add: deriv_mat_def schur_def scalar_minus_def pairwise_def each_def map2_same
        deriv_def)
  have i: "inv_mat rnd x = Inr (x\<lparr>mem := map (inv_fn rnd) (mem x)\<rparr>)"
    by (simp add: inv_mat_def mat_div_def mat_trunc_log_def scalar_minus_def pairwise_def
        each_def map2_same inv_fn_def comp_def)
  show ?thesis by (simp add: f d i)
qed

end
